theory Spec2Isabelle
  imports Complex_Main "HOL-Library.AList" "HOL-Library.Multiset"
begin

text \<open>
  A shallow embedding of the two core modules of qubovert: the energy-model container
  of \<^verbatim>\<open>qubovert/utils/_qubo_matrix.py\<close> (\<^verbatim>\<open>QUBOMatrix\<close>, \<^verbatim>\<open>IsingCoupling\<close>,
  \<^verbatim>\<open>IsingField\<close>) and the Metropolis engine of \<^verbatim>\<open>qubovert/sim/_simulations.py\<close>
  (\<^verbatim>\<open>SpinSimulation\<close>, \<^verbatim>\<open>BooleanSimulation\<close>).  Objects are records, dictionaries are
  association lists or maps, a method that mutates its object returns the object
  afterwards, and every exception is a value.  The definitions come first, the
  properties after them.
\<close>

section \<open>Exceptions\<close>

text \<open>
  The exceptions the Python sources raise, as values.  The first four carry the names
  of the error taxonomy; the source raises them as follows.
  \<^item> \<open>InvalidTerm\<close>: \<^verbatim>\<open>KeyError("Key formatted incorrectly, ...")\<close> of the three
    \<^verbatim>\<open>__setitem__\<close> methods of \<^verbatim>\<open>_qubo_matrix.py\<close>.
  \<^item> \<open>InvalidStateValue\<close>: \<^verbatim>\<open>ValueError("State must contain only ...")\<close> of the two
    \<^verbatim>\<open>set_state\<close> methods.
  \<^item> \<open>InvalidUpdateCount\<close>: \<^verbatim>\<open>ValueError("Cannot update a negative number of times")\<close>.
  \<^item> \<open>InvalidScheduleEntry\<close>: named by the taxonomy; no statement of the source raises it.
  \<^item> \<open>MissingKey\<close>: the \<^verbatim>\<open>KeyError\<close> of a plain dictionary subscript on an absent key.
  \<^item> \<open>IndexError\<close>: a tuple subscript out of range.
  \<^item> \<open>ZeroDivisionError\<close>: division by zero.
\<close>

datatype error =
    InvalidTerm
  | InvalidStateValue
  | InvalidUpdateCount
  | InvalidScheduleEntry
  | MissingKey
  | IndexError
  | ZeroDivisionError

section \<open>The energy-model container (\<^verbatim>\<open>utils/_qubo_matrix.py\<close>)\<close>

text \<open>
  A key handed to the container is a tuple of integer labels (of any length) or a bare
  integer.  Coefficients are real numbers.  A dictionary is an association list with
  pairwise distinct keys in insertion order: \<open>AList.update\<close> overwrites in place or
  appends, as a Python \<^verbatim>\<open>dict\<close> does, and \<open>AList.delete\<close> is \<^verbatim>\<open>pop(k, 0)\<close>.
\<close>

datatype key = Tup "int list" | Idx int

type_synonym pydict = "(key \<times> real) list"

datatype matrix_class = QUBOMatrix | IsingCoupling | IsingField

record qmatrix =
  cls :: matrix_class
  entries :: pydict

text \<open>\<^verbatim>\<open>dict(*args)\<close> on a sequence of pairs: a later pair overwrites an earlier one.\<close>

definition py_dict :: "pydict \<Rightarrow> pydict" where
  "py_dict xs = foldl (\<lambda>d (k, v). AList.update k v d) [] xs"

text \<open>
  \<^verbatim>\<open>tuple(sorted(key))\<close>, with the \<^verbatim>\<open>TypeError\<close> of sorting a bare integer caught
  (\<^verbatim>\<open>k = key\<close>).
\<close>

fun sorted_key :: "key \<Rightarrow> key" where
  "sorted_key (Tup ls) = Tup (sort ls)"
| "sorted_key (Idx i) = Idx i"

text \<open>\<^verbatim>\<open>QUBOMatrix.__getitem__\<close>, inherited by both subclasses.\<close>

definition getitem :: "qmatrix \<Rightarrow> key \<Rightarrow> real" where
  "getitem m k = (case map_of (entries m) (sorted_key k) of Some v \<Rightarrow> v | None \<Rightarrow> 0)"

text \<open>\<^verbatim>\<open>QUBOMatrix.__setitem__\<close> on the underlying dictionary.\<close>

fun QUBOMatrix_setitem :: "key \<Rightarrow> real \<Rightarrow> pydict \<Rightarrow> error + pydict" where
  "QUBOMatrix_setitem (Tup [a, b]) v d =
     (if a < 0 \<or> b < 0 then Inl InvalidTerm
      else if v \<noteq> 0 then Inr (AList.update (Tup (sort [a, b])) v d)
      else Inr (AList.delete (Tup (sort [a, b])) d))"
| "QUBOMatrix_setitem _ v d = Inl InvalidTerm"

text \<open>
  \<^verbatim>\<open>IsingCoupling.__setitem__\<close>: \<^verbatim>\<open>key[0] == key[1]\<close> is evaluated before the length
  of the tuple is looked at, so a tuple with fewer than two labels raises
  \<^verbatim>\<open>IndexError\<close>.
\<close>

fun IsingCoupling_setitem :: "key \<Rightarrow> real \<Rightarrow> pydict \<Rightarrow> error + pydict" where
  "IsingCoupling_setitem (Idx i) v d = Inl InvalidTerm"
| "IsingCoupling_setitem (Tup []) v d = Inl IndexError"
| "IsingCoupling_setitem (Tup [a]) v d = Inl IndexError"
| "IsingCoupling_setitem (Tup (a # b # ls)) v d =
     (if a = b then Inl InvalidTerm else QUBOMatrix_setitem (Tup (a # b # ls)) v d)"

text \<open>\<^verbatim>\<open>IsingField.__setitem__\<close>.\<close>

fun IsingField_setitem :: "key \<Rightarrow> real \<Rightarrow> pydict \<Rightarrow> error + pydict" where
  "IsingField_setitem (Idx i) v d =
     (if i < 0 then Inl InvalidTerm
      else if v \<noteq> 0 then Inr (AList.update (Idx i) v d)
      else Inr (AList.delete (Idx i) d))"
| "IsingField_setitem (Tup ls) v d = Inl InvalidTerm"

text \<open>\<^verbatim>\<open>self[key] = value\<close>: the method of the object's class.\<close>

definition setitem :: "qmatrix \<Rightarrow> key \<Rightarrow> real \<Rightarrow> error + qmatrix" where
  "setitem m k v =
     (case (case cls m of
              QUBOMatrix \<Rightarrow> QUBOMatrix_setitem k v (entries m)
            | IsingCoupling \<Rightarrow> IsingCoupling_setitem k v (entries m)
            | IsingField \<Rightarrow> IsingField_setitem k v (entries m)) of
        Inl e \<Rightarrow> Inl e
      | Inr d \<Rightarrow> Inr (m\<lparr>entries := d\<rparr>))"

text \<open>
  The in-place operators mutate \<^verbatim>\<open>self\<close> entry by entry, so an exception leaves the
  entries written so far.  They return the exception (if any) together with the object
  as it stands when they return or raise.

  \<^verbatim>\<open>__iadd__\<close>: \<^verbatim>\<open>for k, v in other.items(): self[k] += v\<close>.
\<close>

fun iadd :: "qmatrix \<Rightarrow> pydict \<Rightarrow> error option \<times> qmatrix" where
  "iadd m [] = (None, m)"
| "iadd m ((k, v) # xs) =
     (case setitem m k (getitem m k + v) of
        Inl e \<Rightarrow> (Some e, m)
      | Inr m' \<Rightarrow> iadd m' xs)"

text \<open>\<^verbatim>\<open>__isub__\<close>: \<^verbatim>\<open>for k, v in other.items(): self[k] -= v\<close>.\<close>

fun isub :: "qmatrix \<Rightarrow> pydict \<Rightarrow> error option \<times> qmatrix" where
  "isub m [] = (None, m)"
| "isub m ((k, v) # xs) =
     (case setitem m k (getitem m k - v) of
        Inl e \<Rightarrow> (Some e, m)
      | Inr m' \<Rightarrow> isub m' xs)"

text \<open>\<^verbatim>\<open>update\<close>: \<^verbatim>\<open>for k, v in dict(*args, **kwargs).items(): self[k] = v\<close>.\<close>

fun update_loop :: "qmatrix \<Rightarrow> pydict \<Rightarrow> error option \<times> qmatrix" where
  "update_loop m [] = (None, m)"
| "update_loop m ((k, v) # xs) =
     (case setitem m k v of
        Inl e \<Rightarrow> (Some e, m)
      | Inr m' \<Rightarrow> update_loop m' xs)"

definition matrix_update :: "qmatrix \<Rightarrow> pydict \<Rightarrow> error option \<times> qmatrix" where
  "matrix_update m args = update_loop m (py_dict args)"

text \<open>\<^verbatim>\<open>__imul__\<close>: \<^verbatim>\<open>for k in tuple(self.keys()): self[k] *= other\<close>.\<close>

fun imul_loop :: "qmatrix \<Rightarrow> key list \<Rightarrow> real \<Rightarrow> error option \<times> qmatrix" where
  "imul_loop m [] c = (None, m)"
| "imul_loop m (k # ks) c =
     (case setitem m k (getitem m k * c) of
        Inl e \<Rightarrow> (Some e, m)
      | Inr m' \<Rightarrow> imul_loop m' ks c)"

definition imul :: "qmatrix \<Rightarrow> real \<Rightarrow> error option \<times> qmatrix" where
  "imul m c = imul_loop m (map fst (entries m)) c"

text \<open>
  \<^verbatim>\<open>__itruediv__\<close>: \<^verbatim>\<open>for k in tuple(self.keys()): self[k] /= other\<close>.  Python raises
  \<^verbatim>\<open>ZeroDivisionError\<close> where HOL's division by zero yields zero.
\<close>

fun itruediv_loop :: "qmatrix \<Rightarrow> key list \<Rightarrow> real \<Rightarrow> error option \<times> qmatrix" where
  "itruediv_loop m [] c = (None, m)"
| "itruediv_loop m (k # ks) c =
     (if c = 0 then (Some ZeroDivisionError, m)
      else case setitem m k (getitem m k / c) of
        Inl e \<Rightarrow> (Some e, m)
      | Inr m' \<Rightarrow> itruediv_loop m' ks c)"

definition itruediv :: "qmatrix \<Rightarrow> real \<Rightarrow> error option \<times> qmatrix" where
  "itruediv m c = itruediv_loop m (map fst (entries m)) c"

text \<open>
  \<^verbatim>\<open>__init__\<close>: the plain dictionary is built first, then the object is cleared and
  every item re-inserted with \<^verbatim>\<open>self[key] += value\<close> (the loop of \<open>iadd\<close>).  An
  exception leaves no object.
\<close>

definition finished :: "error option \<times> qmatrix \<Rightarrow> error + qmatrix" where
  "finished r = (case r of (None, m) \<Rightarrow> Inr m | (Some e, m) \<Rightarrow> Inl e)"

definition QUBOMatrix_init :: "matrix_class \<Rightarrow> pydict \<Rightarrow> error + qmatrix" where
  "QUBOMatrix_init c args = finished (iadd \<lparr>cls = c, entries = []\<rparr> (py_dict args))"

text \<open>\<^verbatim>\<open>copy\<close>: \<^verbatim>\<open>type(self)(super().copy())\<close>.\<close>

definition matrix_copy :: "qmatrix \<Rightarrow> error + qmatrix" where
  "matrix_copy m = QUBOMatrix_init (cls m) (entries m)"

text \<open>
  The operators that return a new object: \<^verbatim>\<open>d = self.copy()\<close>, the in-place operator
  on \<^verbatim>\<open>d\<close>, \<^verbatim>\<open>return d\<close>.
\<close>

definition on_copy :: "qmatrix \<Rightarrow> (qmatrix \<Rightarrow> error option \<times> qmatrix) \<Rightarrow> error + qmatrix" where
  "on_copy m f = (case matrix_copy m of Inl e \<Rightarrow> Inl e | Inr d \<Rightarrow> finished (f d))"

definition matrix_add :: "qmatrix \<Rightarrow> pydict \<Rightarrow> error + qmatrix" where
  "matrix_add m other = on_copy m (\<lambda>d. iadd d other)"

definition matrix_sub :: "qmatrix \<Rightarrow> pydict \<Rightarrow> error + qmatrix" where
  "matrix_sub m other = on_copy m (\<lambda>d. isub d other)"

definition matrix_mul :: "qmatrix \<Rightarrow> real \<Rightarrow> error + qmatrix" where
  "matrix_mul m c = on_copy m (\<lambda>d. imul d c)"

definition matrix_truediv :: "qmatrix \<Rightarrow> real \<Rightarrow> error + qmatrix" where
  "matrix_truediv m c = on_copy m (\<lambda>d. itruediv d c)"

text \<open>\<^verbatim>\<open>__radd__\<close>: \<^verbatim>\<open>self + other\<close>;  \<^verbatim>\<open>__rmul__\<close>: \<^verbatim>\<open>self * other\<close>;
  \<^verbatim>\<open>__rsub__\<close>: \<^verbatim>\<open>-1*self + other\<close>.\<close>

definition matrix_radd :: "qmatrix \<Rightarrow> pydict \<Rightarrow> error + qmatrix" where
  "matrix_radd m other = matrix_add m other"

definition matrix_rmul :: "qmatrix \<Rightarrow> real \<Rightarrow> error + qmatrix" where
  "matrix_rmul m c = matrix_mul m c"

definition matrix_rsub :: "qmatrix \<Rightarrow> pydict \<Rightarrow> error + qmatrix" where
  "matrix_rsub m other =
     (case matrix_rmul m (- 1) of Inl e \<Rightarrow> Inl e | Inr d \<Rightarrow> matrix_add d other)"

text \<open>
  A caller's operations on one container variable \<^verbatim>\<open>d\<close>: an assignment, \<^verbatim>\<open>update\<close>,
  an in-place operator, or \<^verbatim>\<open>d = d + other\<close> and its kin.  \<open>apply_op\<close> is the object
  the variable holds afterwards, also when the operation raised (and the caller caught
  the exception): an in-place operator leaves what it had written, an operator that
  builds a new object leaves the variable as it was.
\<close>

datatype matrix_op =
    SetItem key real
  | Update pydict
  | IAdd pydict
  | ISub pydict
  | IMul real
  | ITrueDiv real
  | Add pydict
  | RAdd pydict
  | Sub pydict
  | RSub pydict
  | Mul real
  | RMul real
  | TrueDiv real
  | Copy

definition keep :: "qmatrix \<Rightarrow> error + qmatrix \<Rightarrow> qmatrix" where
  "keep m r = (case r of Inl e \<Rightarrow> m | Inr m' \<Rightarrow> m')"

fun apply_op :: "qmatrix \<Rightarrow> matrix_op \<Rightarrow> qmatrix" where
  "apply_op m (SetItem k v) = keep m (setitem m k v)"
| "apply_op m (Update args) = snd (matrix_update m args)"
| "apply_op m (IAdd other) = snd (iadd m other)"
| "apply_op m (ISub other) = snd (isub m other)"
| "apply_op m (IMul c) = snd (imul m c)"
| "apply_op m (ITrueDiv c) = snd (itruediv m c)"
| "apply_op m (Add other) = keep m (matrix_add m other)"
| "apply_op m (RAdd other) = keep m (matrix_radd m other)"
| "apply_op m (Sub other) = keep m (matrix_sub m other)"
| "apply_op m (RSub other) = keep m (matrix_rsub m other)"
| "apply_op m (Mul c) = keep m (matrix_mul m c)"
| "apply_op m (RMul c) = keep m (matrix_rmul m c)"
| "apply_op m (TrueDiv c) = keep m (matrix_truediv m c)"
| "apply_op m Copy = keep m (matrix_copy m)"

definition run_ops :: "qmatrix \<Rightarrow> matrix_op list \<Rightarrow> qmatrix" where
  "run_ops m ops = foldl apply_op m ops"

text \<open>Two keys name the same term when they list the same labels in any order.\<close>

fun same_term :: "key \<Rightarrow> key \<Rightarrow> bool" where
  "same_term (Tup ls) (Tup ls') = (mset ls = mset ls')"
| "same_term (Idx i) (Idx j) = (i = j)"
| "same_term _ _ = False"

text \<open>
  The representation invariant: dictionary keys are pairwise distinct, every stored key
  is its own sorted form, and no stored coefficient is zero.
\<close>

definition matrix_inv :: "qmatrix \<Rightarrow> bool" where
  "matrix_inv m \<longleftrightarrow>
     distinct (map fst (entries m)) \<and>
     (\<forall>(k, v) \<in> set (entries m). v \<noteq> 0 \<and> sorted_key k = k)"

text \<open>
  The keys each class accepts on assignment (the keys on which its \<^verbatim>\<open>__setitem__\<close> does
  not raise).
\<close>

fun valid_key :: "matrix_class \<Rightarrow> key \<Rightarrow> bool" where
  "valid_key QUBOMatrix (Tup [a, b]) = (0 \<le> a \<and> 0 \<le> b)"
| "valid_key IsingCoupling (Tup [a, b]) = (0 \<le> a \<and> 0 \<le> b \<and> a \<noteq> b)"
| "valid_key IsingField (Idx i) = (0 \<le> i)"
| "valid_key _ _ = False"

text \<open>
  The coefficients of a plain mapping accumulated per term: the sum over all entries
  whose keys list the labels of \<open>k\<close> in some order.
\<close>

definition accumulated :: "pydict \<Rightarrow> key \<Rightarrow> real" where
  "accumulated args k = (\<Sum>(k', v) \<leftarrow> args. if same_term k' k then v else 0)"

section \<open>The simulation engine (\<^verbatim>\<open>sim/_simulations.py\<close>)\<close>

subsection \<open>Helpers of \<^verbatim>\<open>qubovert.utils\<close>\<close>

text \<open>
  A state is a dictionary from labels to integer values, a model a dictionary from
  tuples of labels to real coefficients (its items in iteration order).
\<close>

type_synonym 'v assignment = "'v \<rightharpoonup> int"

type_synonym 'v terms = "('v list \<times> real) list"

text \<open>
  \<^verbatim>\<open>product(z[i] for i in k)\<close>; a label that the state does not hold raises
  \<^verbatim>\<open>KeyError\<close>.
\<close>

fun term_product :: "'v assignment \<Rightarrow> 'v list \<Rightarrow> error + int" where
  "term_product z [] = Inr 1"
| "term_product z (i # k) =
     (case z i of
        None \<Rightarrow> Inl MissingKey
      | Some x \<Rightarrow> (case term_product z k of Inl e \<Rightarrow> Inl e | Inr p \<Rightarrow> Inr (x * p)))"

text \<open>
  Modelled from the spec: \<^verbatim>\<open>puso_value\<close> of \<^verbatim>\<open>qubovert.utils\<close>, which the sources
  import but do not contain.  The spec gives it as the energy: the sum over all terms
  of coefficient times the product of the term's variables' current values.
\<close>

fun puso_value :: "'v assignment \<Rightarrow> 'v terms \<Rightarrow> error + real" where
  "puso_value z [] = Inr 0"
| "puso_value z ((k, c) # H) =
     (case term_product z k of
        Inl e \<Rightarrow> Inl e
      | Inr p \<Rightarrow> (case puso_value z H of Inl e \<Rightarrow> Inl e | Inr s \<Rightarrow> Inr (c * of_int p + s)))"

text \<open>
  Modelled from the spec: \<^verbatim>\<open>spin_to_boolean\<close> and \<^verbatim>\<open>boolean_to_spin\<close> of
  \<^verbatim>\<open>qubovert.utils\<close>, absent from the sources: \<open>boolean = (1 - spin) / 2\<close> and its
  inverse, value by value.
\<close>

definition spin_to_boolean :: "'v assignment \<Rightarrow> 'v assignment" where
  "spin_to_boolean z = (\<lambda>v. map_option (\<lambda>s. (1 - s) div 2) (z v))"

definition boolean_to_spin :: "'v assignment \<Rightarrow> 'v assignment" where
  "boolean_to_spin z = (\<lambda>v. map_option (\<lambda>b. 1 - 2 * b) (z v))"

subsection \<open>The random source\<close>

text \<open>
  Python's module \<^verbatim>\<open>random\<close> is a library outside the repository, so its three
  functions are parameters: each takes the state \<open>'g\<close> of the process-wide generator
  and returns the new one.  \<open>random_ok\<close> is the part of the library's contract the
  engine relies on: \<^verbatim>\<open>choices(population, k=len(population))\<close> returns as many
  elements as asked for, all of them members of the population.
\<close>

record ('g, 'v) random_module =
  seed_rng :: "int \<Rightarrow> 'g"
  choices :: "'g \<Rightarrow> 'v list \<Rightarrow> nat \<Rightarrow> 'v list \<times> 'g"
  random_draw :: "'g \<Rightarrow> real \<times> 'g"

definition random_ok :: "('g, 'v) random_module \<Rightarrow> bool" where
  "random_ok R \<longleftrightarrow>
     (\<forall>g pop. length (fst (choices R g pop (length pop))) = length pop \<and>
              set (fst (choices R g pop (length pop))) \<subseteq> set pop)"

subsection \<open>The engine's data\<close>

datatype sim_class = SpinSimulation | BooleanSimulation

record 'v simulation =
  sim_class :: sim_class
  variables :: "'v list"
  initial_state :: "'v assignment"
  state :: "'v assignment"
  past_states :: "'v assignment list"
  memory :: int
  subgraphs :: "'v \<rightharpoonup> 'v terms"

text \<open>The process: the module-level generator and one engine object.\<close>

record ('g, 'v) world =
  rng :: 'g
  engine :: "'v simulation"

text \<open>
  The model handed to the constructor: its items, and its \<^verbatim>\<open>variables\<close> attribute
  (\<open>None\<close> for a plain \<^verbatim>\<open>dict\<close>, which has none).
\<close>

record 'v model =
  model_items :: "'v terms"
  model_variables :: "'v list option"

subsection \<open>State accessors\<close>

text \<open>The property \<^verbatim>\<open>state\<close>: a copy of the state, in the domain of the class.\<close>

definition state_view :: "'v simulation \<Rightarrow> 'v assignment" where
  "state_view s =
     (case sim_class s of
        SpinSimulation \<Rightarrow> state s
      | BooleanSimulation \<Rightarrow> spin_to_boolean (state s))"

text \<open>
  \<^verbatim>\<open>{v: state[v] for v in self._variables}\<close>: \<^verbatim>\<open>KeyError\<close> when a variable is
  missing, before anything is assigned.
\<close>

definition over_variables :: "'v list \<Rightarrow> 'v assignment \<Rightarrow> error + 'v assignment" where
  "over_variables vars st =
     (if \<exists>v \<in> set vars. st v = None then Inl MissingKey else Inr (st |` set vars))"

text \<open>
  \<^verbatim>\<open>SpinSimulation.set_state\<close>: the assignment to \<^verbatim>\<open>self._state\<close> comes first, the
  check of the values second.  The keys of the new dictionary are exactly the
  variables, so its values are the values at the variables.
\<close>

definition SpinSimulation_set_state ::
  "'v simulation \<Rightarrow> 'v assignment \<Rightarrow> error option \<times> 'v simulation" where
  "SpinSimulation_set_state s st =
     (case over_variables (variables s) st of
        Inl e \<Rightarrow> (Some e, s)
      | Inr st' \<Rightarrow>
          (let s' = s\<lparr>state := st'\<rparr> in
           if \<exists>v \<in> set (variables s'). state s' v \<noteq> Some 1 \<and> state s' v \<noteq> Some (- 1)
           then (Some InvalidStateValue, s')
           else (None, s')))"

text \<open>
  \<^verbatim>\<open>BooleanSimulation.set_state\<close>: the new dictionary is a local variable, checked
  before \<^verbatim>\<open>self._state\<close> is assigned.
\<close>

definition BooleanSimulation_set_state ::
  "'v simulation \<Rightarrow> 'v assignment \<Rightarrow> error option \<times> 'v simulation" where
  "BooleanSimulation_set_state s st =
     (case over_variables (variables s) st of
        Inl e \<Rightarrow> (Some e, s)
      | Inr st' \<Rightarrow>
          if \<exists>v \<in> set (variables s). st' v \<noteq> Some 0 \<and> st' v \<noteq> Some 1
          then (Some InvalidStateValue, s)
          else (None, s\<lparr>state := boolean_to_spin st'\<rparr>))"

definition set_state :: "'v simulation \<Rightarrow> 'v assignment \<Rightarrow> error option \<times> 'v simulation" where
  "set_state s st =
     (case sim_class s of
        SpinSimulation \<Rightarrow> SpinSimulation_set_state s st
      | BooleanSimulation \<Rightarrow> BooleanSimulation_set_state s st)"

text \<open>\<^verbatim>\<open>reset\<close>.\<close>

definition reset :: "'v simulation \<Rightarrow> error option \<times> 'v simulation" where
  "reset s = set_state (s\<lparr>past_states := []\<rparr>) (initial_state s)"

subsection \<open>History\<close>

text \<open>
  The slice \<^verbatim>\<open>xs[a:]\<close>: a negative start counts from the end, and a start outside
  the list is clamped.
\<close>

definition slice_from :: "int \<Rightarrow> 'a list \<Rightarrow> 'a list" where
  "slice_from a xs =
     (if a < 0 then drop (nat (int (length xs) + a)) xs else drop (nat a) xs)"

text \<open>\<^verbatim>\<open>get_past_states\<close>; \<open>None\<close> is the omitted argument.\<close>

definition get_past_states :: "'v simulation \<Rightarrow> int option \<Rightarrow> 'v assignment list" where
  "get_past_states s num_states =
     (if num_states = Some 1 then [state_view s]
      else
        (let n = (case num_states of None \<Rightarrow> memory s | Some k \<Rightarrow> k)
         in slice_from (- n + 1) (past_states s) @ [state_view s]))"

text \<open>\<^verbatim>\<open>_add_past_state\<close>; \<^verbatim>\<open>pop(0)\<close> of a list just appended to is its tail.\<close>

definition add_past_state :: "'v simulation \<Rightarrow> 'v simulation" where
  "add_past_state s =
     (if memory s \<noteq> 0 then
        (let ps = past_states s @ [state_view s] in
         if int (length ps) > memory s then s\<lparr>past_states := tl ps\<rparr>
         else s\<lparr>past_states := ps\<rparr>)
      else s)"

subsection \<open>Construction\<close>

text \<open>
  The adjacency index: \<^verbatim>\<open>self._subgraphs[v][k] = c\<close> for every label \<open>v\<close> of every
  key \<open>k\<close> of the model; \<^verbatim>\<open>KeyError\<close> when \<open>v\<close> is not one of the variables.
\<close>

fun add_term :: "'v list \<Rightarrow> 'v list \<Rightarrow> real \<Rightarrow> ('v \<rightharpoonup> 'v terms) \<Rightarrow> error + ('v \<rightharpoonup> 'v terms)" where
  "add_term [] k c sg = Inr sg"
| "add_term (v # vs) k c sg =
     (case sg v of
        None \<Rightarrow> Inl MissingKey
      | Some d \<Rightarrow> add_term vs k c (sg(v \<mapsto> AList.update k c d)))"

fun build_subgraphs :: "'v terms \<Rightarrow> ('v \<rightharpoonup> 'v terms) \<Rightarrow> error + ('v \<rightharpoonup> 'v terms)" where
  "build_subgraphs [] sg = Inr sg"
| "build_subgraphs ((k, c) # items) sg =
     (case add_term k k c sg of
        Inl e \<Rightarrow> Inl e
      | Inr sg' \<Rightarrow> build_subgraphs items sg')"

text \<open>
  \<^verbatim>\<open>SpinSimulation.__init__\<close>, for an object of class \<open>c\<close> (\<^verbatim>\<open>self.set_state\<close> is the
  method of that class).  The initial state, when given, is a \<^verbatim>\<open>dict\<close>: a list of
  pairs with pairwise distinct keys.  Without a \<^verbatim>\<open>variables\<close> attribute and an initial
  state, the variables are the labels of the model in the order Python's set iteration
  yields, here the order of first occurrence.  An exception leaves no object.
\<close>

definition simulation_init ::
  "sim_class \<Rightarrow> 'v model \<Rightarrow> ('v \<times> int) list option \<Rightarrow> int \<Rightarrow> error + 'v simulation" where
  "simulation_init c model init mem =
     (let vars =
            (case model_variables model of
               Some vs \<Rightarrow> vs
             | None \<Rightarrow>
                 (case init of
                    Some d \<Rightarrow> map fst d
                  | None \<Rightarrow> remdups (concat (map fst (model_items model)))));
          init_state =
            (case init of
               Some d \<Rightarrow> map_of d
             | None \<Rightarrow> map_of (map (\<lambda>v. (v, 1)) vars));
          self = \<lparr>sim_class = c, variables = vars, initial_state = init_state,
                   state = Map.empty, past_states = [], memory = mem,
                   subgraphs = Map.empty\<rparr>
      in case set_state self init_state of
           (Some e, _) \<Rightarrow> Inl e
         | (None, self') \<Rightarrow>
             (case build_subgraphs (model_items model) (map_of (map (\<lambda>v. (v, [])) vars)) of
                Inl e \<Rightarrow> Inl e
              | Inr sg \<Rightarrow> Inr (self'\<lparr>subgraphs := sg\<rparr>)))"

definition SpinSimulation_init ::
  "'v model \<Rightarrow> ('v \<times> int) list option \<Rightarrow> int \<Rightarrow> error + 'v simulation" where
  "SpinSimulation_init model init mem = simulation_init SpinSimulation model init mem"

text \<open>
  \<^verbatim>\<open>BooleanSimulation.__init__\<close>.  \<^verbatim>\<open>pubo_to_puso\<close> of \<^verbatim>\<open>qubovert.utils\<close> is absent
  from the sources and is a parameter; its result is a model object, which has the
  variables attribute.
\<close>

definition BooleanSimulation_init ::
  "('v model \<Rightarrow> 'v terms \<times> 'v list) \<Rightarrow> 'v model \<Rightarrow> ('v \<times> int) list option \<Rightarrow> int \<Rightarrow>
   error + 'v simulation" where
  "BooleanSimulation_init pubo_to_puso model init mem =
     (let (items, vars) = pubo_to_puso model;
          model' = \<lparr>model_items = items, model_variables = Some vars\<rparr>;
          init' = (case init of None \<Rightarrow> Some (map (\<lambda>v. (v, 0)) vars) | Some d \<Rightarrow> Some d)
      in simulation_init BooleanSimulation model' init' mem)"

subsection \<open>Updates\<close>

text \<open>\<^verbatim>\<open>_flip_bit\<close>: \<^verbatim>\<open>self._state[label] *= -1\<close>.\<close>

definition flip_bit :: "'v simulation \<Rightarrow> 'v \<Rightarrow> error + 'v simulation" where
  "flip_bit s label =
     (case state s label of
        None \<Rightarrow> Inl MissingKey
      | Some x \<Rightarrow> Inr (s\<lparr>state := (state s)(label \<mapsto> x * (- 1))\<rparr>))"

text \<open>\<^verbatim>\<open>dE = -2 * puso_value(self._state, self._subgraphs[i])\<close>.\<close>

definition delta_E :: "'v simulation \<Rightarrow> 'v \<Rightarrow> error + real" where
  "delta_E s i =
     (case subgraphs s i of
        None \<Rightarrow> Inl MissingKey
      | Some sg \<Rightarrow>
          (case puso_value (state s) sg of Inl e \<Rightarrow> Inl e | Inr E \<Rightarrow> Inr (- 2 * E)))"

definition do_flip :: "('g, 'v) world \<Rightarrow> 'v \<Rightarrow> error option \<times> ('g, 'v) world" where
  "do_flip w i =
     (case flip_bit (engine w) i of
        Inl e \<Rightarrow> (Some e, w)
      | Inr s \<Rightarrow> (None, w\<lparr>engine := s\<rparr>))"

text \<open>
  One candidate: the body of the loop over the drawn labels.  Python's \<^verbatim>\<open>or\<close> and
  \<^verbatim>\<open>and\<close> evaluate \<^verbatim>\<open>random.random()\<close> only when \<open>dE > 0\<close> and \<open>T\<close> is not zero.
\<close>

definition candidate ::
  "('g, 'v) random_module \<Rightarrow> real \<Rightarrow> ('g, 'v) world \<Rightarrow> 'v \<Rightarrow> error option \<times> ('g, 'v) world" where
  "candidate R T w i =
     (case delta_E (engine w) i of
        Inl e \<Rightarrow> (Some e, w)
      | Inr dE \<Rightarrow>
          if dE \<le> 0 then do_flip w i
          else if T \<noteq> 0 then
            (let (r, g') = random_draw R (rng w);
                 w' = w\<lparr>rng := g'\<rparr>
             in if r < exp (- dE / T) then do_flip w' i else (None, w'))
          else (None, w))"

fun sweep_loop ::
  "('g, 'v) random_module \<Rightarrow> real \<Rightarrow> 'v list \<Rightarrow> ('g, 'v) world \<Rightarrow> error option \<times> ('g, 'v) world" where
  "sweep_loop R T [] w = (None, w)"
| "sweep_loop R T (i # drawn) w =
     (case candidate R T w i of
        (Some e, w') \<Rightarrow> (Some e, w')
      | (None, w') \<Rightarrow> sweep_loop R T drawn w')"

text \<open>
  The branch \<^verbatim>\<open>num_updates == 1\<close> of \<^verbatim>\<open>update\<close>: one snapshot, one sweep.  It is what
  the recursive call \<^verbatim>\<open>self.update(T)\<close> executes.
\<close>

definition single_update ::
  "('g, 'v) random_module \<Rightarrow> real \<Rightarrow> ('g, 'v) world \<Rightarrow> error option \<times> ('g, 'v) world" where
  "single_update R T w =
     (let w1 = w\<lparr>engine := add_past_state (engine w)\<rparr>;
          (drawn, g') = choices R (rng w1) (variables (engine w1)) (length (variables (engine w1)))
      in sweep_loop R T drawn (w1\<lparr>rng := g'\<rparr>))"

text \<open>\<^verbatim>\<open>for _ in range(n): ...\<close> over a call that may raise.\<close>

fun repeat_call ::
  "nat \<Rightarrow> ('w \<Rightarrow> error option \<times> 'w) \<Rightarrow> 'w \<Rightarrow> error option \<times> 'w" where
  "repeat_call 0 f w = (None, w)"
| "repeat_call (Suc n) f w =
     (case f w of
        (Some e, w') \<Rightarrow> (Some e, w')
      | (None, w') \<Rightarrow> repeat_call n f w')"

text \<open>\<^verbatim>\<open>if seed is not None: random.seed(seed)\<close>.\<close>

definition reseed :: "('g, 'v) random_module \<Rightarrow> int option \<Rightarrow> ('g, 'v) world \<Rightarrow> ('g, 'v) world" where
  "reseed R seed w = (case seed of None \<Rightarrow> w | Some s \<Rightarrow> w\<lparr>rng := seed_rng R s\<rparr>)"

text \<open>
  \<^verbatim>\<open>update(T, num_updates, seed)\<close>.  The result is the exception raised (if any)
  and the process as the call leaves it.
\<close>

definition update ::
  "('g, 'v) random_module \<Rightarrow> real \<Rightarrow> int \<Rightarrow> int option \<Rightarrow> ('g, 'v) world \<Rightarrow>
   error option \<times> ('g, 'v) world" where
  "update R T num_updates seed w =
     (let w1 = reseed R seed w in
      if num_updates < 0 then (Some InvalidUpdateCount, w1)
      else if num_updates > 1 then repeat_call (nat num_updates) (single_update R T) w1
      else if num_updates = 1 then single_update R T w1
      else (None, w1))"

text \<open>\<^verbatim>\<open>schedule_update(schedule, seed)\<close>.\<close>

fun schedule_loop ::
  "('g, 'v) random_module \<Rightarrow> (real \<times> int) list \<Rightarrow> ('g, 'v) world \<Rightarrow>
   error option \<times> ('g, 'v) world" where
  "schedule_loop R [] w = (None, w)"
| "schedule_loop R ((T, n) # schedule) w =
     (case update R T n None w of
        (Some e, w') \<Rightarrow> (Some e, w')
      | (None, w') \<Rightarrow> schedule_loop R schedule w')"

definition schedule_update ::
  "('g, 'v) random_module \<Rightarrow> (real \<times> int) list \<Rightarrow> int option \<Rightarrow> ('g, 'v) world \<Rightarrow>
   error option \<times> ('g, 'v) world" where
  "schedule_update R schedule seed w = schedule_loop R schedule (reseed R seed w)"

subsection \<open>Energy, well-formed engines, call sequences\<close>

text \<open>
  The energy of an assignment that holds every label of the model, as the glossary
  defines it: the sum over all terms of coefficient times the product of the term's
  variables' values.  \<open>puso_value\<close> returns it whenever it returns.
\<close>

definition product_of :: "'v assignment \<Rightarrow> 'v list \<Rightarrow> int" where
  "product_of z k = (\<Prod>i \<leftarrow> k. the (z i))"

definition full_energy :: "'v assignment \<Rightarrow> 'v terms \<Rightarrow> real" where
  "full_energy z H = (\<Sum>(k, c) \<leftarrow> H. c * of_int (product_of z k))"

text \<open>The terms incident to a variable.\<close>

definition incident :: "'v \<Rightarrow> 'v terms \<Rightarrow> 'v terms" where
  "incident v H = filter (\<lambda>(k, c). v \<in> set k) H"

text \<open>
  An engine is well formed for a model when its adjacency index holds, for every
  variable, the model's terms incident to it, every label of the model is a
  variable, and the state holds every variable.  The constructor establishes this
  and \<^verbatim>\<open>update\<close> keeps it.
\<close>

definition sim_ok :: "'v terms \<Rightarrow> 'v simulation \<Rightarrow> bool" where
  "sim_ok H s \<longleftrightarrow>
     (\<forall>v \<in> set (variables s). subgraphs s v = Some (incident v H)) \<and>
     (\<forall>(k, c) \<in> set H. set k \<subseteq> set (variables s)) \<and>
     set (variables s) \<subseteq> dom (state s)"

text \<open>
  The single-sweep calls a schedule stands for: for each phase in order, as many calls
  \<^verbatim>\<open>update(T)\<close> as the phase has sweeps; and the caller issuing them one after the
  other, after seeding once.
\<close>

definition single_sweep_calls :: "(real \<times> int) list \<Rightarrow> real list" where
  "single_sweep_calls schedule = concat (map (\<lambda>(T, n). replicate (nat n) T) schedule)"

fun issue_updates ::
  "('g, 'v) random_module \<Rightarrow> real list \<Rightarrow> ('g, 'v) world \<Rightarrow> error option \<times> ('g, 'v) world" where
  "issue_updates R [] w = (None, w)"
| "issue_updates R (T # Ts) w =
     (case update R T 1 None w of
        (Some e, w') \<Rightarrow> (Some e, w')
      | (None, w') \<Rightarrow> issue_updates R Ts w')"

definition schedule_by_single_sweeps ::
  "('g, 'v) random_module \<Rightarrow> (real \<times> int) list \<Rightarrow> int option \<Rightarrow> ('g, 'v) world \<Rightarrow>
   error option \<times> ('g, 'v) world" where
  "schedule_by_single_sweeps R schedule seed w =
     issue_updates R (single_sweep_calls schedule) (reseed R seed w)"

text \<open>
  A caller's sequence of \<^verbatim>\<open>update\<close> and \<^verbatim>\<open>schedule_update\<close> calls on one engine;
  \<open>run_calls\<close> is the process afterwards, whether or not a call raised.
\<close>

datatype engine_call =
    UpdateCall real int "int option"
  | ScheduleCall "(real \<times> int) list" "int option"

fun do_call :: "('g, 'v) random_module \<Rightarrow> ('g, 'v) world \<Rightarrow> engine_call \<Rightarrow> ('g, 'v) world" where
  "do_call R w (UpdateCall T n seed) = snd (update R T n seed w)"
| "do_call R w (ScheduleCall schedule seed) = snd (schedule_update R schedule seed w)"

definition run_calls ::
  "('g, 'v) random_module \<Rightarrow> ('g, 'v) world \<Rightarrow> engine_call list \<Rightarrow> ('g, 'v) world" where
  "run_calls R w calls = foldl (do_call R) w calls"

text \<open>An engine that was built without memory and holds no snapshot.\<close>

definition no_history :: "('g, 'v) world \<Rightarrow> bool" where
  "no_history w \<longleftrightarrow> memory (engine w) = 0 \<and> past_states (engine w) = []"

subsection \<open>A concrete random source and a concrete engine\<close>

text \<open>
  A deterministic stand-in for the generator, used to run the engine on concrete
  inputs: its state is a counter, \<^verbatim>\<open>choices\<close> walks the population cyclically from
  the counter, and \<^verbatim>\<open>random\<close> returns one half.
\<close>

definition counter_random :: "(nat, 'v) random_module" where
  "counter_random =
     \<lparr>seed_rng = (\<lambda>s. nat \<bar>s\<bar>),
      choices = (\<lambda>g pop k. (map (\<lambda>j. pop ! ((g + j) mod length pop)) [0..<k], g + k)),
      random_draw = (\<lambda>g. (1 / 2, Suc g))\<rparr>"

text \<open>
  The model of one spin \<open>0\<close> with the field term \<^verbatim>\<open>{(0,): 1}\<close>, and the engine the
  constructor builds for it from the default initial state.
\<close>

definition field_model :: "int model" where
  "field_model = \<lparr>model_items = [([0], 1)], model_variables = None\<rparr>"

definition field_engine :: "int \<Rightarrow> int simulation" where
  "field_engine mem =
     \<lparr>sim_class = SpinSimulation, variables = [0], initial_state = [0 \<mapsto> 1],
      state = [0 \<mapsto> 1], past_states = [], memory = mem,
      subgraphs = [0 \<mapsto> [([0], 1)]]\<rparr>"

text \<open>
  A chain of three spins with couplings \<open>-1\<close> and a field \<open>3\<close> on the middle spin, as
  a model object with a \<^verbatim>\<open>variables\<close> attribute, and the engine the constructor
  builds for it.
\<close>

definition chain_model :: "int model" where
  "chain_model =
     \<lparr>model_items = [([0, 1], - 1), ([1, 2], - 1), ([1], 3)],
      model_variables = Some [0, 1, 2]\<rparr>"

definition chain_engine :: "int simulation" where
  "chain_engine =
     \<lparr>sim_class = SpinSimulation, variables = [0, 1, 2],
      initial_state = [0 \<mapsto> 1, 1 \<mapsto> 1, 2 \<mapsto> 1],
      state = [0 \<mapsto> 1, 1 \<mapsto> 1, 2 \<mapsto> 1], past_states = [], memory = 0,
      subgraphs = [0 \<mapsto> [([0, 1], - 1)],
                   1 \<mapsto> [([0, 1], - 1), ([1, 2], - 1), ([1], 3)],
                   2 \<mapsto> [([1, 2], - 1)]]\<rparr>"

section \<open>Association lists\<close>

lemma alist_update_fresh: "k \<notin> fst ` set d \<Longrightarrow> AList.update k v d = d @ [(k, v)]"
  by (induction d) auto

lemma foldl_update_distinct:
  "distinct (map fst (d @ xs)) \<Longrightarrow>
   foldl (\<lambda>d (k, v). AList.update k v d) d xs = d @ xs"
proof (induction xs arbitrary: d)
  case Nil
  then show ?case by simp
next
  case (Cons x xs)
  obtain k v where x: "x = (k, v)" by (cases x)
  with Cons.prems have "k \<notin> fst ` set d" by auto
  then have u: "AList.update k v d = d @ [(k, v)]" by (rule alist_update_fresh)
  from Cons.prems x have "distinct (map fst ((d @ [(k, v)]) @ xs))" by simp
  from Cons.IH [OF this] show ?case by (simp add: x u)
qed

section \<open>The container keeps its invariant\<close>

lemma set_alist_update: "set (AList.update k v al) \<subseteq> insert (k, v) (set al)"
  by (induction al) auto

lemma set_alist_delete: "set (AList.delete k al) \<subseteq> set al"
  by (auto simp: AList.delete_eq)

lemma pydict_update_inv:
  assumes "distinct (map fst d)" and "\<forall>(k, v) \<in> set d. v \<noteq> 0 \<and> sorted_key k = k"
    and "v \<noteq> 0" and "sorted_key k = k"
  shows "distinct (map fst (AList.update k v d)) \<and>
         (\<forall>(k', v') \<in> set (AList.update k v d). v' \<noteq> 0 \<and> sorted_key k' = k')"
  using assms set_alist_update [of k v d] by (auto simp: distinct_update)

lemma pydict_delete_inv:
  assumes "distinct (map fst d)" and "\<forall>(k, v) \<in> set d. v \<noteq> 0 \<and> sorted_key k = k"
  shows "distinct (map fst (AList.delete k d)) \<and>
         (\<forall>(k', v') \<in> set (AList.delete k d). v' \<noteq> 0 \<and> sorted_key k' = k')"
  using assms set_alist_delete [of k d] by (auto simp: distinct_delete)

lemma sorted_key_pair: "sorted_key (Tup (sort [a, b])) = Tup (sort [a, b])"
  by simp

lemma QUBOMatrix_setitem_inv:
  assumes "distinct (map fst d)" and "\<forall>(k, v) \<in> set d. v \<noteq> 0 \<and> sorted_key k = k"
    and "QUBOMatrix_setitem k v d = Inr d'"
  shows "distinct (map fst d') \<and> (\<forall>(k', v') \<in> set d'. v' \<noteq> 0 \<and> sorted_key k' = k')"
proof (cases "\<exists>a b. k = Tup [a, b]")
  case True
  then obtain a b where k: "k = Tup [a, b]" by blast
  show ?thesis
  proof (cases "v = 0")
    case True
    with assms(3) k have "d' = AList.delete (Tup (sort [a, b])) d"
      by (simp split: if_splits)
    then show ?thesis using pydict_delete_inv [OF assms(1,2)] by blast
  next
    case False
    with assms(3) k have "d' = AList.update (Tup (sort [a, b])) v d"
      by (simp split: if_splits)
    then show ?thesis
      using pydict_update_inv [OF assms(1,2) False sorted_key_pair] by blast
  qed
next
  case False
  then have "QUBOMatrix_setitem k v d = Inl InvalidTerm"
    by (cases "(k, v, d)" rule: QUBOMatrix_setitem.cases) auto
  with assms(3) show ?thesis by simp
qed

lemma IsingCoupling_setitem_inv:
  assumes "distinct (map fst d)" and "\<forall>(k, v) \<in> set d. v \<noteq> 0 \<and> sorted_key k = k"
    and "IsingCoupling_setitem k v d = Inr d'"
  shows "distinct (map fst d') \<and> (\<forall>(k', v') \<in> set d'. v' \<noteq> 0 \<and> sorted_key k' = k')"
proof -
  from assms(3) have "QUBOMatrix_setitem k v d = Inr d'"
    by (cases "(k, v, d)" rule: IsingCoupling_setitem.cases) (auto split: if_splits)
  then show ?thesis by (rule QUBOMatrix_setitem_inv [OF assms(1,2)])
qed

lemma IsingField_setitem_inv:
  assumes "distinct (map fst d)" and "\<forall>(k, v) \<in> set d. v \<noteq> 0 \<and> sorted_key k = k"
    and "IsingField_setitem k v d = Inr d'"
  shows "distinct (map fst d') \<and> (\<forall>(k', v') \<in> set d'. v' \<noteq> 0 \<and> sorted_key k' = k')"
proof (cases k)
  case (Tup ls)
  with assms(3) show ?thesis by simp
next
  case (Idx i)
  show ?thesis
  proof (cases "v = 0")
    case True
    with assms(3) Idx have "d' = AList.delete (Idx i) d" by (simp split: if_splits)
    then show ?thesis using pydict_delete_inv [OF assms(1,2)] by blast
  next
    case False
    with assms(3) Idx have "d' = AList.update (Idx i) v d" by (simp split: if_splits)
    then show ?thesis using pydict_update_inv [OF assms(1,2) False, of "Idx i"] by simp
  qed
qed

lemma setitem_cls: "setitem m k v = Inr m' \<Longrightarrow> cls m' = cls m"
  by (auto simp: setitem_def split: sum.splits)

lemma setitem_inv:
  assumes "matrix_inv m" and "setitem m k v = Inr m'"
  shows "matrix_inv m'"
proof -
  from assms(1) have d: "distinct (map fst (entries m))"
    and z: "\<forall>(k, v) \<in> set (entries m). v \<noteq> 0 \<and> sorted_key k = k"
    by (simp_all add: matrix_inv_def)
  show ?thesis
  proof (cases "cls m")
    case QUBOMatrix
    with assms(2) obtain d' where "QUBOMatrix_setitem k v (entries m) = Inr d'"
      and "m' = m\<lparr>entries := d'\<rparr>"
      by (auto simp: setitem_def split: sum.splits)
    then show ?thesis using QUBOMatrix_setitem_inv [OF d z] by (simp add: matrix_inv_def)
  next
    case IsingCoupling
    with assms(2) obtain d' where "IsingCoupling_setitem k v (entries m) = Inr d'"
      and "m' = m\<lparr>entries := d'\<rparr>"
      by (auto simp: setitem_def split: sum.splits)
    then show ?thesis using IsingCoupling_setitem_inv [OF d z] by (simp add: matrix_inv_def)
  next
    case IsingField
    with assms(2) obtain d' where "IsingField_setitem k v (entries m) = Inr d'"
      and "m' = m\<lparr>entries := d'\<rparr>"
      by (auto simp: setitem_def split: sum.splits)
    then show ?thesis using IsingField_setitem_inv [OF d z] by (simp add: matrix_inv_def)
  qed
qed

lemma iadd_inv: "matrix_inv m \<Longrightarrow> matrix_inv (snd (iadd m xs)) \<and> cls (snd (iadd m xs)) = cls m"
proof (induction xs arbitrary: m)
  case Nil
  then show ?case by simp
next
  case (Cons x xs)
  obtain k v where x: "x = (k, v)" by (cases x)
  show ?case
  proof (cases "setitem m k (getitem m k + v)")
    case (Inl e)
    with Cons.prems x show ?thesis by simp
  next
    case (Inr m')
    with Cons.IH [of m'] Cons.prems x show ?thesis
      by (simp add: setitem_inv [OF Cons.prems Inr] setitem_cls [OF Inr])
  qed
qed

lemma isub_inv: "matrix_inv m \<Longrightarrow> matrix_inv (snd (isub m xs)) \<and> cls (snd (isub m xs)) = cls m"
proof (induction xs arbitrary: m)
  case Nil
  then show ?case by simp
next
  case (Cons x xs)
  obtain k v where x: "x = (k, v)" by (cases x)
  show ?case
  proof (cases "setitem m k (getitem m k - v)")
    case (Inl e)
    with Cons.prems x show ?thesis by simp
  next
    case (Inr m')
    with Cons.IH [of m'] Cons.prems x show ?thesis
      by (simp add: setitem_inv [OF Cons.prems Inr] setitem_cls [OF Inr])
  qed
qed

lemma update_loop_inv:
  "matrix_inv m \<Longrightarrow> matrix_inv (snd (update_loop m xs)) \<and> cls (snd (update_loop m xs)) = cls m"
proof (induction xs arbitrary: m)
  case Nil
  then show ?case by simp
next
  case (Cons x xs)
  obtain k v where x: "x = (k, v)" by (cases x)
  show ?case
  proof (cases "setitem m k v")
    case (Inl e)
    with Cons.prems x show ?thesis by simp
  next
    case (Inr m')
    with Cons.IH [of m'] Cons.prems x show ?thesis
      by (simp add: setitem_inv [OF Cons.prems Inr] setitem_cls [OF Inr])
  qed
qed

lemma imul_loop_inv:
  "matrix_inv m \<Longrightarrow>
   matrix_inv (snd (imul_loop m ks c)) \<and> cls (snd (imul_loop m ks c)) = cls m"
proof (induction ks arbitrary: m)
  case Nil
  then show ?case by simp
next
  case (Cons k ks)
  show ?case
  proof (cases "setitem m k (getitem m k * c)")
    case (Inl e)
    with Cons.prems show ?thesis by simp
  next
    case (Inr m')
    with Cons.IH [of m'] Cons.prems show ?thesis
      by (simp add: setitem_inv [OF Cons.prems Inr] setitem_cls [OF Inr])
  qed
qed

lemma itruediv_loop_inv:
  "matrix_inv m \<Longrightarrow>
   matrix_inv (snd (itruediv_loop m ks c)) \<and> cls (snd (itruediv_loop m ks c)) = cls m"
proof (induction ks arbitrary: m)
  case Nil
  then show ?case by simp
next
  case (Cons k ks)
  show ?case
  proof (cases "c = 0")
    case True
    with Cons.prems show ?thesis by simp
  next
    case False
    show ?thesis
    proof (cases "setitem m k (getitem m k / c)")
      case (Inl e)
      with Cons.prems False show ?thesis by simp
    next
      case (Inr m')
      with Cons.IH [of m'] Cons.prems False show ?thesis
        by (simp add: setitem_inv [OF Cons.prems Inr] setitem_cls [OF Inr])
    qed
  qed
qed


lemma finished_inv:
  assumes "matrix_inv (snd r) \<and> cls (snd r) = c" and "finished r = Inr m'"
  shows "matrix_inv m' \<and> cls m' = c"
  using assms by (cases r) (auto simp: finished_def split: option.splits)

lemma QUBOMatrix_init_inv:
  assumes "QUBOMatrix_init c args = Inr m"
  shows "matrix_inv m \<and> cls m = c"
proof -
  let ?e = "\<lparr>cls = c, entries = []\<rparr>"
  have i: "matrix_inv ?e" by (simp add: matrix_inv_def)
  have "matrix_inv (snd (iadd ?e (py_dict args))) \<and> cls (snd (iadd ?e (py_dict args))) = c"
    using iadd_inv [OF i, of "py_dict args"] by simp
  then show ?thesis using assms unfolding QUBOMatrix_init_def by (rule finished_inv)
qed

lemma matrix_copy_inv: "matrix_copy m = Inr m' \<Longrightarrow> matrix_inv m' \<and> cls m' = cls m"
  unfolding matrix_copy_def by (rule QUBOMatrix_init_inv)

lemma on_copy_inv:
  assumes "\<And>d. matrix_inv d \<Longrightarrow> matrix_inv (snd (f d)) \<and> cls (snd (f d)) = cls d"
    and "on_copy m f = Inr m'"
  shows "matrix_inv m' \<and> cls m' = cls m"
proof -
  from assms(2) obtain d where d: "matrix_copy m = Inr d" and f: "finished (f d) = Inr m'"
    by (auto simp: on_copy_def split: sum.splits)
  from matrix_copy_inv [OF d] assms(1) [of d]
  have "matrix_inv (snd (f d)) \<and> cls (snd (f d)) = cls m" by simp
  then show ?thesis using f by (rule finished_inv)
qed

lemma matrix_add_inv: "matrix_add m other = Inr m' \<Longrightarrow> matrix_inv m' \<and> cls m' = cls m"
  unfolding matrix_add_def by (rule on_copy_inv [where f = "\<lambda>d. iadd d other"]) (rule iadd_inv)

lemma matrix_sub_inv: "matrix_sub m other = Inr m' \<Longrightarrow> matrix_inv m' \<and> cls m' = cls m"
  unfolding matrix_sub_def by (rule on_copy_inv [where f = "\<lambda>d. isub d other"]) (rule isub_inv)

lemma matrix_mul_inv: "matrix_mul m c = Inr m' \<Longrightarrow> matrix_inv m' \<and> cls m' = cls m"
  unfolding matrix_mul_def imul_def
  by (rule on_copy_inv [where f = "\<lambda>d. imul_loop d (map fst (entries d)) c"])
    (rule imul_loop_inv)

lemma matrix_truediv_inv: "matrix_truediv m c = Inr m' \<Longrightarrow> matrix_inv m' \<and> cls m' = cls m"
  unfolding matrix_truediv_def itruediv_def
  by (rule on_copy_inv [where f = "\<lambda>d. itruediv_loop d (map fst (entries d)) c"])
    (rule itruediv_loop_inv)

lemma matrix_rsub_inv:
  assumes "matrix_rsub m other = Inr m'"
  shows "matrix_inv m' \<and> cls m' = cls m"
proof -
  from assms obtain d where d: "matrix_mul m (- 1) = Inr d" and a: "matrix_add d other = Inr m'"
    by (auto simp: matrix_rsub_def matrix_rmul_def split: sum.splits)
  from matrix_mul_inv [OF d] matrix_add_inv [OF a] show ?thesis by simp
qed

lemma keep_inv:
  assumes "matrix_inv m" and "\<And>m'. r = Inr m' \<Longrightarrow> matrix_inv m' \<and> cls m' = cls m"
  shows "matrix_inv (keep m r) \<and> cls (keep m r) = cls m"
proof (cases r)
  case (Inl e)
  with assms(1) show ?thesis by (simp add: keep_def)
next
  case (Inr m')
  from assms(2) [OF Inr] Inr show ?thesis by (simp add: keep_def)
qed

lemma apply_op_inv:
  assumes "matrix_inv m"
  shows "matrix_inv (apply_op m x) \<and> cls (apply_op m x) = cls m"
proof (cases x)
  case (SetItem k v)
  have "matrix_inv (keep m (setitem m k v)) \<and> cls (keep m (setitem m k v)) = cls m"
    by (rule keep_inv [OF assms]) (simp add: setitem_inv [OF assms] setitem_cls)
  with SetItem show ?thesis by simp
next
  case (Update args)
  then show ?thesis using update_loop_inv [OF assms] by (simp add: matrix_update_def)
next
  case (IAdd other)
  then show ?thesis using iadd_inv [OF assms] by simp
next
  case (ISub other)
  then show ?thesis using isub_inv [OF assms] by simp
next
  case (IMul c)
  then show ?thesis using imul_loop_inv [OF assms] by (simp add: imul_def)
next
  case (ITrueDiv c)
  then show ?thesis using itruediv_loop_inv [OF assms] by (simp add: itruediv_def)
next
  case (Add other)
  have "matrix_inv (keep m (matrix_add m other)) \<and> cls (keep m (matrix_add m other)) = cls m"
    by (rule keep_inv [OF assms]) (rule matrix_add_inv)
  with Add show ?thesis by simp
next
  case (RAdd other)
  have "matrix_inv (keep m (matrix_add m other)) \<and> cls (keep m (matrix_add m other)) = cls m"
    by (rule keep_inv [OF assms]) (rule matrix_add_inv)
  with RAdd show ?thesis by (simp add: matrix_radd_def)
next
  case (Sub other)
  have "matrix_inv (keep m (matrix_sub m other)) \<and> cls (keep m (matrix_sub m other)) = cls m"
    by (rule keep_inv [OF assms]) (rule matrix_sub_inv)
  with Sub show ?thesis by simp
next
  case (RSub other)
  have "matrix_inv (keep m (matrix_rsub m other)) \<and> cls (keep m (matrix_rsub m other)) = cls m"
    by (rule keep_inv [OF assms]) (rule matrix_rsub_inv)
  with RSub show ?thesis by simp
next
  case (Mul c)
  have "matrix_inv (keep m (matrix_mul m c)) \<and> cls (keep m (matrix_mul m c)) = cls m"
    by (rule keep_inv [OF assms]) (rule matrix_mul_inv)
  with Mul show ?thesis by simp
next
  case (RMul c)
  have "matrix_inv (keep m (matrix_mul m c)) \<and> cls (keep m (matrix_mul m c)) = cls m"
    by (rule keep_inv [OF assms]) (rule matrix_mul_inv)
  with RMul show ?thesis by (simp add: matrix_rmul_def)
next
  case (TrueDiv c)
  have "matrix_inv (keep m (matrix_truediv m c)) \<and> cls (keep m (matrix_truediv m c)) = cls m"
    by (rule keep_inv [OF assms]) (rule matrix_truediv_inv)
  with TrueDiv show ?thesis by simp
next
  case Copy
  have "matrix_inv (keep m (matrix_copy m)) \<and> cls (keep m (matrix_copy m)) = cls m"
    by (rule keep_inv [OF assms]) (rule matrix_copy_inv)
  with Copy show ?thesis by simp
qed

lemma run_ops_inv:
  "matrix_inv m \<Longrightarrow> matrix_inv (run_ops m ops) \<and> cls (run_ops m ops) = cls m"
  unfolding run_ops_def
proof (induction ops arbitrary: m)
  case Nil
  then show ?case by simp
next
  case (Cons x ops)
  from apply_op_inv [OF Cons.prems, of x] Cons.IH [of "apply_op m x"]
  show ?case by simp
qed

lemma sort_mset_eq: "mset xs = mset ys \<Longrightarrow> sort xs = sort ys"
  by (rule properties_for_sort) simp_all

lemma sort_sort: "sort (sort xs) = sort (xs :: int list)"
  by (rule sorted_sort_id) simp

lemma same_term_iff: "same_term k k' \<longleftrightarrow> sorted_key k = sorted_key k'"
proof (cases k; cases k')
  fix ls ls' assume "k = Tup ls" "k' = Tup ls'"
  moreover have "mset ls = mset ls' \<longleftrightarrow> sort ls = sort ls'"
    using sort_mset_eq [of ls ls'] by (metis mset_sort)
  ultimately show ?thesis by simp
qed simp_all

lemma getitem_same_term: "same_term k k' \<Longrightarrow> getitem m k = getitem m k'"
  by (simp add: same_term_iff getitem_def)

lemma getitem_absent:
  assumes "\<forall>k' \<in> fst ` set (entries m). \<not> same_term k k'"
  shows "getitem m k = 0"
proof (cases "map_of (entries m) (sorted_key k)")
  case None
  then show ?thesis by (simp add: getitem_def)
next
  case (Some v)
  then have "sorted_key k \<in> fst ` set (entries m)"
    by (metis map_of_SomeD fst_conv image_eqI)
  moreover have "same_term k (sorted_key k)"
    by (cases k) (simp_all add: same_term_iff sort_sort)
  ultimately show ?thesis using assms by blast
qed

lemma valid_key_cases:
  assumes "valid_key c k"
  obtains a b where "c = QUBOMatrix" "k = Tup [a, b]" "0 \<le> a" "0 \<le> b"
  | a b where "c = IsingCoupling" "k = Tup [a, b]" "0 \<le> a" "0 \<le> b" "a \<noteq> b"
  | i where "c = IsingField" "k = Idx i" "0 \<le> i"
  using assms by (cases "(c, k)" rule: valid_key.cases) auto

lemma getitem_upd:
  "getitem (m\<lparr>entries := AList.update k0 x (entries m)\<rparr>) k =
     (if sorted_key k = k0 then x else getitem m k)"
  by (simp add: getitem_def update_conv')

lemma getitem_del:
  "getitem (m\<lparr>entries := AList.delete k0 (entries m)\<rparr>) k =
     (if sorted_key k = k0 then 0 else getitem m k)"
  by (simp add: getitem_def delete_conv')

lemma setitem_valid:
  assumes "valid_key (cls m) k0"
  shows "\<exists>m1. setitem m k0 x = Inr m1 \<and>
           (\<forall>k. getitem m1 k = (if sorted_key k = sorted_key k0 then x else getitem m k))"
  using assms
proof (cases rule: valid_key_cases)
  case (1 a b)
  then show ?thesis
    by (cases "x = 0") (simp_all add: setitem_def getitem_upd getitem_del del: sort_key_simps)
next
  case (2 a b)
  then show ?thesis
    by (cases "x = 0") (simp_all add: setitem_def getitem_upd getitem_del del: sort_key_simps)
next
  case (3 i)
  then show ?thesis
    by (cases "x = 0") (simp_all add: setitem_def getitem_upd getitem_del)
qed


lemma accumulated_Nil: "accumulated [] k = 0"
  by (simp add: accumulated_def)

lemma accumulated_Cons:
  "accumulated ((k0, v) # xs) k = (if same_term k0 k then v else 0) + accumulated xs k"
  by (simp add: accumulated_def)

lemma iadd_accumulates:
  assumes "\<forall>(k, v) \<in> set xs. valid_key (cls m) k"
  shows "\<exists>m'. iadd m xs = (None, m') \<and> (\<forall>k. getitem m' k = getitem m k + accumulated xs k)"
  using assms
proof (induction xs arbitrary: m)
  case Nil
  then show ?case by (simp add: accumulated_Nil)
next
  case (Cons x xs)
  obtain k0 v where x: "x = (k0, v)" by (cases x)
  with Cons.prems have "valid_key (cls m) k0" by simp
  from setitem_valid [OF this, of "getitem m k0 + v"]
  obtain m1 where m1: "setitem m k0 (getitem m k0 + v) = Inr m1"
    and g1: "\<And>k. getitem m1 k = (if sorted_key k = sorted_key k0 then getitem m k0 + v
                                    else getitem m k)"
    by blast
  have "cls m1 = cls m" by (rule setitem_cls [OF m1])
  with Cons.prems have "\<forall>(k, v) \<in> set xs. valid_key (cls m1) k" by simp
  from Cons.IH [OF this] obtain m' where m': "iadd m1 xs = (None, m')"
    and g': "\<And>k. getitem m' k = getitem m1 k + accumulated xs k"
    by blast
  have "getitem m' k = getitem m k + accumulated (x # xs) k" for k
  proof (cases "same_term k0 k")
    case True
    then have "sorted_key k = sorted_key k0" by (simp add: same_term_iff)
    moreover from True have "getitem m k0 = getitem m k" by (rule getitem_same_term)
    ultimately show ?thesis using True by (simp add: g' g1 x accumulated_Cons)
  next
    case False
    then have "sorted_key k \<noteq> sorted_key k0" by (auto simp: same_term_iff)
    then show ?thesis using False by (simp add: g' g1 x accumulated_Cons)
  qed
  with m1 m' x show ?case by simp
qed

lemma py_dict_distinct: "distinct (map fst xs) \<Longrightarrow> py_dict xs = xs"
  using foldl_update_distinct [of "[]" xs] by (simp add: py_dict_def)

lemma map_of_entries:
  assumes "matrix_inv m"
  shows "map_of (entries m) k =
           (if sorted_key k = k \<and> getitem m k \<noteq> 0 then Some (getitem m k) else None)"
proof (cases "map_of (entries m) k")
  case None
  then show ?thesis by (auto simp: getitem_def)
next
  case (Some v)
  then have "(k, v) \<in> set (entries m)" by (rule map_of_SomeD)
  with assms have "v \<noteq> 0" "sorted_key k = k" by (auto simp: matrix_inv_def)
  with Some show ?thesis by (simp add: getitem_def)
qed

lemma getitem_empty: "getitem \<lparr>cls = c, entries = []\<rparr> k = 0"
  by (simp add: getitem_def)


section \<open>Claims about the container\<close>

text \<open>
  Claim C3.  Take a container of any of the three classes as its constructor returns it,
  and apply any finite sequence of item assignments, \<^verbatim>\<open>update\<close> calls and arithmetic
  operators (\<^verbatim>\<open>+\<close>, \<^verbatim>\<open>-\<close>, scalar \<^verbatim>\<open>*\<close> and \<^verbatim>\<open>/\<close>, in place or not, failing or not).
  Afterwards no stored key maps to a zero coefficient; two keys that list the same
  labels in different orders look up the same value; and a key none of whose
  reorderings is stored looks up \<open>0\<close>.  Lookup itself is the total function
  \<open>getitem\<close>: it has no failing branch.
\<close>

theorem container_invariant:
  assumes "QUBOMatrix_init c args = Inr m0"
  shows "(\<forall>(k, v) \<in> set (entries (run_ops m0 ops)). v \<noteq> 0) \<and>
         (\<forall>k k'. same_term k k' \<longrightarrow> getitem (run_ops m0 ops) k = getitem (run_ops m0 ops) k') \<and>
         (\<forall>k. (\<forall>k' \<in> fst ` set (entries (run_ops m0 ops)). \<not> same_term k k') \<longrightarrow>
              getitem (run_ops m0 ops) k = 0)"
proof -
  from QUBOMatrix_init_inv [OF assms] have "matrix_inv m0" by simp
  then have "matrix_inv (run_ops m0 ops)" using run_ops_inv by blast
  then have "\<forall>(k, v) \<in> set (entries (run_ops m0 ops)). v \<noteq> 0"
    by (auto simp: matrix_inv_def)
  then show ?thesis using getitem_same_term getitem_absent by blast
qed

lemma container_example_init:
  "QUBOMatrix_init IsingCoupling [(Tup [1, 0], 2), (Tup [2, 1], 1)] =
     Inr \<lparr>cls = IsingCoupling, entries = [(Tup [0, 1], 2), (Tup [1, 2], 1)]\<rparr>"
  by (simp add: QUBOMatrix_init_def py_dict_def finished_def setitem_def getitem_def)

lemma container_example_run:
  "entries (run_ops \<lparr>cls = IsingCoupling, entries = [(Tup [0, 1], 2), (Tup [1, 2], 1)]\<rparr>
     [IAdd [(Tup [1, 0], - 2)], IMul 3, SetItem (Tup [0, 0]) 5, ITrueDiv 0, Sub [(Tup [7], 1)]])
   = [(Tup [1, 2], 3)]"
  by (simp add: run_ops_def QUBOMatrix_init_def py_dict_def finished_def setitem_def
      getitem_def imul_def itruediv_def keep_def matrix_sub_def on_copy_def matrix_copy_def)

theorem container_invariant_witness:
  "QUBOMatrix_init IsingCoupling [(Tup [1, 0], 2), (Tup [2, 1], 1)] =
     Inr \<lparr>cls = IsingCoupling, entries = [(Tup [0, 1], 2), (Tup [1, 2], 1)]\<rparr> \<and>
   entries (run_ops \<lparr>cls = IsingCoupling, entries = [(Tup [0, 1], 2), (Tup [1, 2], 1)]\<rparr>
     [IAdd [(Tup [1, 0], - 2)], IMul 3, SetItem (Tup [0, 0]) 5, ITrueDiv 0, Sub [(Tup [7], 1)]])
   = [(Tup [1, 2], 3)] \<and>
   getitem (run_ops \<lparr>cls = IsingCoupling, entries = [(Tup [0, 1], 2), (Tup [1, 2], 1)]\<rparr>
     [IAdd [(Tup [1, 0], - 2)], IMul 3, SetItem (Tup [0, 0]) 5, ITrueDiv 0, Sub [(Tup [7], 1)]])
     (Tup [2, 1]) =
   getitem (run_ops \<lparr>cls = IsingCoupling, entries = [(Tup [0, 1], 2), (Tup [1, 2], 1)]\<rparr>
     [IAdd [(Tup [1, 0], - 2)], IMul 3, SetItem (Tup [0, 0]) 5, ITrueDiv 0, Sub [(Tup [7], 1)]])
     (Tup [1, 2]) \<and>
   getitem (run_ops \<lparr>cls = IsingCoupling, entries = [(Tup [0, 1], 2), (Tup [1, 2], 1)]\<rparr>
     [IAdd [(Tup [1, 0], - 2)], IMul 3, SetItem (Tup [0, 0]) 5, ITrueDiv 0, Sub [(Tup [7], 1)]])
     (Tup [1, 0]) = 0"
proof -
  let ?m0 = "\<lparr>cls = IsingCoupling, entries = [(Tup [0, 1], 2), (Tup [1, 2], 1)]\<rparr>"
  let ?ops = "[IAdd [(Tup [1, 0], - 2)], IMul 3, SetItem (Tup [0, 0]) 5, ITrueDiv 0,
               Sub [(Tup [7], 1)]]"
  note inv = container_invariant [OF container_example_init, of ?ops]
  from inv have "getitem (run_ops ?m0 ?ops) (Tup [2, 1]) = getitem (run_ops ?m0 ?ops) (Tup [1, 2])"
    by simp
  moreover have "\<forall>k' \<in> fst ` set (entries (run_ops ?m0 ?ops)). \<not> same_term (Tup [1, 0]) k'"
    by (simp add: container_example_run)
  with inv have "getitem (run_ops ?m0 ?ops) (Tup [1, 0]) = 0" by blast
  ultimately show ?thesis using container_example_init container_example_run by simp
qed

text \<open>
  Claim C10.  Constructing a container from a plain mapping (pairwise distinct keys,
  each one accepted by the class) succeeds, and the stored dictionary maps exactly the
  sorted keys with a non-zero accumulated coefficient to that coefficient: entries
  whose keys differ only in label order are summed, not overwritten, and a zero sum is
  dropped.  The witness is the mapping \<^verbatim>\<open>{(0, 1): 1, (1, 0): 2, (2, 0): 0}\<close>, which
  yields the single entry \<^verbatim>\<open>(0, 1): 3\<close>.
\<close>

theorem init_accumulates:
  assumes "distinct (map fst args)" and "\<forall>(k, v) \<in> set args. valid_key c k"
  shows "\<exists>m. QUBOMatrix_init c args = Inr m \<and> cls m = c \<and>
           (\<forall>k. map_of (entries m) k =
                  (if sorted_key k = k \<and> accumulated args k \<noteq> 0
                   then Some (accumulated args k) else None))"
proof -
  let ?e = "\<lparr>cls = c, entries = []\<rparr>"
  from assms(2) have "\<forall>(k, v) \<in> set args. valid_key (cls ?e) k" by simp
  from iadd_accumulates [OF this] obtain m where m: "iadd ?e args = (None, m)"
    and g: "\<And>k. getitem m k = getitem ?e k + accumulated args k"
    by blast
  from m assms(1) have init: "QUBOMatrix_init c args = Inr m"
    by (simp add: QUBOMatrix_init_def py_dict_distinct finished_def)
  from QUBOMatrix_init_inv [OF init] have "matrix_inv m" "cls m = c" by simp_all
  with init g show ?thesis by (simp add: map_of_entries getitem_empty)
qed

theorem init_accumulates_witness:
  "QUBOMatrix_init QUBOMatrix [(Tup [0, 1], 1), (Tup [1, 0], 2), (Tup [2, 0], 0)] =
     Inr \<lparr>cls = QUBOMatrix, entries = [(Tup [0, 1], 3)]\<rparr> \<and>
   accumulated [(Tup [0, 1], 1), (Tup [1, 0], 2), (Tup [2, 0], 0)] (Tup [0, 1]) = 3 \<and>
   (\<exists>m. QUBOMatrix_init QUBOMatrix [(Tup [0, 1], 1), (Tup [1, 0], 2), (Tup [2, 0], 0)] = Inr m \<and>
        map_of (entries m) (Tup [0, 1]) = Some 3 \<and> map_of (entries m) (Tup [0, 2]) = None)"
proof -
  let ?args = "[(Tup [0, 1], 1), (Tup [1, 0], 2), (Tup [2, 0], 0)] :: pydict"
  have d: "distinct (map fst ?args)" by simp
  have v: "\<forall>(k, v) \<in> set ?args. valid_key QUBOMatrix k" by simp
  have a: "accumulated ?args (Tup [0, 1]) = 3" "accumulated ?args (Tup [0, 2]) = 0"
    by (simp_all add: accumulated_def)
  from init_accumulates [OF d v] obtain m
    where m: "QUBOMatrix_init QUBOMatrix ?args = Inr m"
      and e: "\<And>k. map_of (entries m) k =
                  (if sorted_key k = k \<and> accumulated ?args k \<noteq> 0
                   then Some (accumulated ?args k) else None)"
    by blast
  from e [of "Tup [0, 1]"] e [of "Tup [0, 2]"] a
  have "map_of (entries m) (Tup [0, 1]) = Some 3" "map_of (entries m) (Tup [0, 2]) = None"
    by simp_all
  moreover have "QUBOMatrix_init QUBOMatrix ?args =
      Inr \<lparr>cls = QUBOMatrix, entries = [(Tup [0, 1], 3)]\<rparr>"
    by (simp add: QUBOMatrix_init_def py_dict_def finished_def setitem_def getitem_def)
  ultimately show ?thesis using m a by simp
qed

lemma field_engine_init: "SpinSimulation_init field_model None mem = Inr (field_engine mem)"
  by (auto simp add: SpinSimulation_init_def simulation_init_def field_model_def field_engine_def
      set_state_def SpinSimulation_set_state_def over_variables_def restrict_map_def Let_def
      fun_eq_iff)

lemma counter_random_ok: "random_ok counter_random"
proof -
  have "pop ! ((g + j) mod length pop) \<in> set pop" if "j < length pop" for pop :: "'a list" and g j
  proof -
    from that have "pop \<noteq> []" by auto
    then have "(g + j) mod length pop < length pop" by simp
    then show ?thesis by (rule nth_mem)
  qed
  then show ?thesis by (auto simp: random_ok_def counter_random_def)
qed


section \<open>What a call changes\<close>

lemma engine_state_id: "\<exists>st. engine w = (engine w)\<lparr>state := st\<rparr>"
  by (rule exI [of _ "state (engine w)"]) simp

lemma do_flip_frame:
  assumes "do_flip w i = (r, w')"
  shows "rng w' = rng w \<and> (\<exists>st. engine w' = (engine w)\<lparr>state := st\<rparr>)"
proof (cases "state (engine w) i")
  case None
  with assms have "w' = w" by (simp add: do_flip_def flip_bit_def)
  then show ?thesis using engine_state_id by simp
next
  case (Some x)
  with assms have "w' = w\<lparr>engine := (engine w)\<lparr>state := (state (engine w))(i \<mapsto> x * (- 1))\<rparr>\<rparr>"
    by (simp add: do_flip_def flip_bit_def)
  then show ?thesis by auto
qed

lemma candidate_frame:
  assumes "candidate R T w i = (r, w')"
  shows "\<exists>st. engine w' = (engine w)\<lparr>state := st\<rparr>"
proof (cases "delta_E (engine w) i")
  case (Inl e)
  with assms have "w' = w" by (simp add: candidate_def)
  then show ?thesis using engine_state_id by simp
next
  case (Inr dE)
  show ?thesis
  proof (cases "dE \<le> 0")
    case True
    with assms Inr have "do_flip w i = (r, w')" by (simp add: candidate_def)
    from do_flip_frame [OF this] show ?thesis by simp
  next
    case False
    show ?thesis
    proof (cases "T = 0")
      case True
      with assms Inr False have "w' = w" by (simp add: candidate_def)
      then show ?thesis using engine_state_id by simp
    next
      case nz: False
      obtain x g' where d: "random_draw R (rng w) = (x, g')" by (cases "random_draw R (rng w)")
      show ?thesis
      proof (cases "x < exp (- dE / T)")
        case True
        with assms Inr False nz d have "do_flip (w\<lparr>rng := g'\<rparr>) i = (r, w')"
          by (simp add: candidate_def)
        from do_flip_frame [OF this] show ?thesis by simp
      next
        case False
        with assms Inr \<open>\<not> dE \<le> 0\<close> nz d have "w' = w\<lparr>rng := g'\<rparr>"
          by (simp add: candidate_def)
        then show ?thesis using engine_state_id [of w] by simp
      qed
    qed
  qed
qed

lemma sweep_loop_frame:
  "sweep_loop R T drawn w = (r, w') \<Longrightarrow> \<exists>st. engine w' = (engine w)\<lparr>state := st\<rparr>"
proof (induction drawn arbitrary: w)
  case Nil
  then have "w' = w" by simp
  then show ?case using engine_state_id by simp
next
  case (Cons i drawn)
  obtain r1 w1 where c: "candidate R T w i = (r1, w1)" by (cases "candidate R T w i")
  from candidate_frame [OF c] obtain st1 where f: "engine w1 = (engine w)\<lparr>state := st1\<rparr>" ..
  show ?case
  proof (cases r1)
    case None
    with Cons.prems c have "sweep_loop R T drawn w1 = (r, w')" by simp
    from Cons.IH [OF this] obtain st where "engine w' = (engine w1)\<lparr>state := st\<rparr>" ..
    then have "engine w' = (engine w)\<lparr>state := st\<rparr>" by (simp add: f)
    then show ?thesis by blast
  next
    case (Some e)
    with Cons.prems c have "w' = w1" by simp
    with f show ?thesis by blast
  qed
qed

lemma single_update_frame:
  assumes "single_update R T w = (r, w')"
  shows "\<exists>st. engine w' = (add_past_state (engine w))\<lparr>state := st\<rparr>"
proof -
  let ?w1 = "w\<lparr>engine := add_past_state (engine w)\<rparr>"
  obtain drawn g' where
    "choices R (rng ?w1) (variables (engine ?w1)) (length (variables (engine ?w1))) = (drawn, g')"
    by (cases "choices R (rng ?w1) (variables (engine ?w1)) (length (variables (engine ?w1)))")
  with assms have "sweep_loop R T drawn (?w1\<lparr>rng := g'\<rparr>) = (r, w')"
    by (simp add: single_update_def Let_def)
  from sweep_loop_frame [OF this] show ?thesis by simp
qed

lemma update_single: "update R T 1 None w = single_update R T w"
  by (simp add: update_def reseed_def)

section \<open>Schedules and single sweeps\<close>

lemma repeat_call_one: "repeat_call (Suc 0) f w = f w"
  by (cases "f w"; cases "fst (f w)") auto

lemma update_as_repeat:
  assumes "0 \<le> n"
  shows "update R T n None w = repeat_call (nat n) (single_update R T) w"
proof -
  consider "n = 0" | "n = 1" | "1 < n" using assms by linarith
  then show ?thesis
  proof cases
    case 1
    then show ?thesis by (simp add: update_def reseed_def)
  next
    case 2
    then have "update R T n None w = single_update R T w" by (simp add: update_def reseed_def)
    also have "\<dots> = repeat_call (Suc 0) (single_update R T) w"
      by (rule repeat_call_one [symmetric])
    also from 2 have "Suc 0 = nat n" by simp
    finally show ?thesis .
  next
    case 3
    then show ?thesis by (simp add: update_def reseed_def)
  qed
qed

lemma issue_updates_replicate:
  "issue_updates R (replicate k T @ Ts) w =
     (case repeat_call k (single_update R T) w of
        (Some e, w') \<Rightarrow> (Some e, w')
      | (None, w') \<Rightarrow> issue_updates R Ts w')"
proof (induction k arbitrary: w)
  case 0
  then show ?case by simp
next
  case (Suc k)
  obtain r w1 where s: "single_update R T w = (r, w1)" by (cases "single_update R T w")
  show ?case
  proof (cases r)
    case None
    with s Suc.IH [of w1] show ?thesis by (simp add: update_single)
  next
    case (Some e)
    with s show ?thesis by (simp add: update_single)
  qed
qed

lemma schedule_loop_single_sweeps:
  assumes "\<forall>(T, n) \<in> set schedule. 0 \<le> n"
  shows "schedule_loop R schedule w = issue_updates R (single_sweep_calls schedule) w"
  using assms
proof (induction schedule arbitrary: w)
  case Nil
  then show ?case by (simp add: single_sweep_calls_def)
next
  case (Cons p schedule)
  obtain T n where p: "p = (T, n)" by (cases p)
  with Cons.prems have n: "0 \<le> n" and rest: "\<forall>(T, n) \<in> set schedule. 0 \<le> n" by simp_all
  have calls: "single_sweep_calls ((T, n) # schedule) =
      replicate (nat n) T @ single_sweep_calls schedule"
    by (simp add: single_sweep_calls_def)
  obtain r w1 where u: "repeat_call (nat n) (single_update R T) w = (r, w1)"
    by (cases "repeat_call (nat n) (single_update R T) w")
  show ?case
  proof (cases r)
    case None
    with u Cons.IH [OF rest, of w1] show ?thesis
      by (simp add: p calls issue_updates_replicate update_as_repeat [OF n])
  next
    case (Some e)
    with u show ?thesis
      by (simp add: p calls issue_updates_replicate update_as_repeat [OF n])
  qed
qed

section \<open>Energy\<close>

lemma term_product_total:
  "set k \<subseteq> dom z \<Longrightarrow> term_product z k = Inr (product_of z k)"
  by (induction k) (auto simp: product_of_def)

lemma puso_value_total:
  "\<forall>(k, c) \<in> set H. set k \<subseteq> dom z \<Longrightarrow> puso_value z H = Inr (full_energy z H)"
proof (induction H)
  case Nil
  then show ?case by (simp add: full_energy_def)
next
  case (Cons x H)
  obtain k c where x: "x = (k, c)" by (cases x)
  with Cons.prems have "set k \<subseteq> dom z" by simp
  then have "term_product z k = Inr (product_of z k)" by (rule term_product_total)
  moreover from Cons have "puso_value z H = Inr (full_energy z H)" by simp
  ultimately show ?case by (simp add: x full_energy_def)
qed

lemma product_of_Cons: "product_of z (j # k) = the (z j) * product_of z k"
  by (simp add: product_of_def)

lemma product_of_agree:
  "\<forall>j \<in> set k. z' j = z j \<Longrightarrow> product_of z' k = product_of z k"
  by (induction k) (simp_all add: product_of_def)

lemma product_of_negate:
  assumes "z i = Some x" and "z' i = Some (- x)" and "\<forall>j. j \<noteq> i \<longrightarrow> z' j = z j"
    and "distinct k"
  shows "product_of z' k = (if i \<in> set k then - product_of z k else product_of z k)"
  using assms(4)
proof (induction k)
  case Nil
  then show ?case by (simp add: product_of_def)
next
  case (Cons j k)
  from Cons.prems have dk: "distinct k" and jk: "j \<notin> set k" by simp_all
  note IH = Cons.IH [OF dk]
  show ?case
  proof (cases "j = i")
    case True
    with jk assms(3) have "\<forall>l \<in> set k. z' l = z l" by auto
    then have "product_of z' k = product_of z k" by (rule product_of_agree)
    with True assms(1,2) jk show ?thesis by (simp add: product_of_Cons)
  next
    case False
    with assms(3) have "z' j = z j" by simp
    with IH False show ?thesis by (simp add: product_of_Cons)
  qed
qed

lemma full_energy_Cons:
  "full_energy z ((k, c) # H) = c * of_int (product_of z k) + full_energy z H"
  by (simp add: full_energy_def)

lemma full_energy_negate:
  assumes "z i = Some x" and "z' i = Some (- x)" and "\<forall>j. j \<noteq> i \<longrightarrow> z' j = z j"
    and "\<forall>(k, c) \<in> set H. distinct k"
  shows "full_energy z' H - full_energy z H = - 2 * full_energy z (incident i H)"
  using assms(4)
proof (induction H)
  case Nil
  then show ?case by (simp add: full_energy_def incident_def)
next
  case (Cons p H)
  obtain k c where p: "p = (k, c)" by (cases p)
  with Cons.prems have d: "distinct k" and dH: "\<forall>(k, c) \<in> set H. distinct k" by simp_all
  note IH = Cons.IH [OF dH]
  note f = product_of_negate [OF assms(1,2,3) d]
  show ?case
  proof (cases "i \<in> set k")
    case True
    then have "incident i (p # H) = (k, c) # incident i H" by (simp add: incident_def p)
    with IH f True show ?thesis by (simp add: p full_energy_Cons algebra_simps)
  next
    case False
    then have "incident i (p # H) = incident i H" by (simp add: incident_def p)
    with IH f False show ?thesis by (simp add: p full_energy_Cons)
  qed
qed

lemma full_energy_flip:
  assumes "z i = Some x" and "\<forall>(k, c) \<in> set H. distinct k"
  shows "full_energy (z(i \<mapsto> x * (- 1))) H - full_energy z H =
           - 2 * full_energy z (incident i H)"
proof -
  define z' where "z' = z(i \<mapsto> x * (- 1))"
  have "z' i = Some (- x)" and "\<forall>j. j \<noteq> i \<longrightarrow> z' j = z j"
    by (simp_all add: z'_def)
  from full_energy_negate [OF assms(1) this assms(2)] show ?thesis by (simp only: z'_def)
qed

section \<open>The adjacency index\<close>

lemma add_term_result:
  assumes "add_term vs k c sg = Inr sg'"
  shows "set vs \<subseteq> dom sg \<and>
         (\<forall>v. sg' v = (if v \<in> set vs then map_option (AList.update k c) (sg v) else sg v))"
  using assms
proof (induction vs arbitrary: sg)
  case Nil
  then show ?case by simp
next
  case (Cons u vs)
  from Cons.prems obtain d where d: "sg u = Some d"
    and rest: "add_term vs k c (sg(u \<mapsto> AList.update k c d)) = Inr sg'"
    by (auto split: option.splits)
  define sg1 where "sg1 = sg(u \<mapsto> AList.update k c d)"
  have sg1u: "sg1 u = Some (AList.update k c d)" and sg1o: "\<And>v. v \<noteq> u \<Longrightarrow> sg1 v = sg v"
    by (simp_all add: sg1_def)
  from rest have rest1: "add_term vs k c sg1 = Inr sg'" by (simp only: sg1_def)
  from Cons.IH [OF rest1] have sub: "set vs \<subseteq> dom sg1"
    and val: "\<And>v. sg' v = (if v \<in> set vs then map_option (AList.update k c) (sg1 v) else sg1 v)"
    by blast+
  have "dom sg1 = dom sg" using d by (auto simp: sg1_def)
  with sub d have "set (u # vs) \<subseteq> dom sg" by auto
  moreover have "sg' v = (if v \<in> set (u # vs) then map_option (AList.update k c) (sg v) else sg v)"
    for v
  proof (cases "v = u")
    case True
    then show ?thesis using val [of u] sg1u d by simp
  next
    case False
    then show ?thesis using val [of v] sg1o [of v] by simp
  qed
  ultimately show ?case by blast
qed

lemma build_subgraphs_result:
  assumes "build_subgraphs H sg = Inr sg'"
  shows "(\<forall>(k, c) \<in> set H. set k \<subseteq> dom sg) \<and> dom sg' = dom sg \<and>
         (\<forall>v d. sg v = Some d \<longrightarrow>
            sg' v = Some (foldl (\<lambda>d (k, c). if v \<in> set k then AList.update k c d else d) d H))"
  using assms
proof (induction H arbitrary: sg)
  case Nil
  then show ?case by simp
next
  case (Cons p H)
  obtain k c where p: "p = (k, c)" by (cases p)
  with Cons.prems obtain sg1 where a: "add_term k k c sg = Inr sg1"
    and b: "build_subgraphs H sg1 = Inr sg'"
    by (auto split: sum.splits)
  from add_term_result [OF a] have sub: "set k \<subseteq> dom sg"
    and val: "\<And>v. sg1 v = (if v \<in> set k then map_option (AList.update k c) (sg v) else sg v)"
    by simp_all
  have dom1: "dom sg1 = dom sg"
  proof (rule set_eqI)
    fix v show "v \<in> dom sg1 \<longleftrightarrow> v \<in> dom sg" using val [of v] by (auto simp: dom_def)
  qed
  from Cons.IH [OF b] have 1: "\<forall>(k, c) \<in> set H. set k \<subseteq> dom sg1" and 2: "dom sg' = dom sg1"
    and 3: "\<And>v d. sg1 v = Some d \<Longrightarrow>
        sg' v = Some (foldl (\<lambda>d (k, c). if v \<in> set k then AList.update k c d else d) d H)"
    by simp_all
  have "sg' v = Some (foldl (\<lambda>d (k, c). if v \<in> set k then AList.update k c d else d) d (p # H))"
    if "sg v = Some d" for v d
  proof (cases "v \<in> set k")
    case True
    with val [of v] that have "sg1 v = Some (AList.update k c d)" by simp
    from 3 [OF this] True show ?thesis by (simp add: p)
  next
    case False
    with val [of v] that have "sg1 v = Some d" by simp
    from 3 [OF this] False show ?thesis by (simp add: p)
  qed
  with sub 1 2 dom1 p show ?case by auto
qed

lemma foldl_incident:
  "distinct (map fst (d @ H)) \<Longrightarrow>
   foldl (\<lambda>d (k, c). if v \<in> set k then AList.update k c d else d) d H = d @ incident v H"
proof (induction H arbitrary: d)
  case Nil
  then show ?case by (simp add: incident_def)
next
  case (Cons p H)
  obtain k c where p: "p = (k, c)" by (cases p)
  show ?case
  proof (cases "v \<in> set k")
    case True
    from Cons.prems p have "k \<notin> fst ` set d" by auto
    then have u: "AList.update k c d = d @ [(k, c)]" by (rule alist_update_fresh)
    from Cons.prems p have "distinct (map fst ((d @ [(k, c)]) @ H))" by simp
    from Cons.IH [OF this] True show ?thesis by (simp add: p u incident_def)
  next
    case False
    from Cons.prems p have "distinct (map fst (d @ H))" by simp
    from Cons.IH [OF this] False show ?thesis by (simp add: p incident_def)
  qed
qed

lemma empty_index: "map_of (map (\<lambda>v. (v, [])) vars) v = (if v \<in> set vars then Some [] else None)"
  by (induction vars) auto

lemma dom_empty_index: "dom (map_of (map (\<lambda>v. (v, [])) vars)) = set vars"
  by (auto simp: empty_index dom_def)

lemma build_subgraphs_incident:
  assumes "build_subgraphs H (map_of (map (\<lambda>v. (v, [])) vars)) = Inr sg"
    and "distinct (map fst H)"
  shows "(\<forall>v \<in> set vars. sg v = Some (incident v H)) \<and> (\<forall>(k, c) \<in> set H. set k \<subseteq> set vars)"
proof -
  note r = build_subgraphs_result [OF assms(1), unfolded dom_empty_index]
  note labels = r [THEN conjunct1]
  note val = r [THEN conjunct2, THEN conjunct2, rule_format]
  have "sg v = Some (incident v H)" if "v \<in> set vars" for v
  proof -
    from that have "map_of (map (\<lambda>v. (v, [])) vars) v = Some []" by (simp add: empty_index)
    from val [OF this] foldl_incident [of "[]" H v] assms(2) show ?thesis by simp
  qed
  with labels show ?thesis by blast
qed

section \<open>Construction establishes a well-formed engine\<close>

lemma over_variables_dom:
  "over_variables vars st = Inr st' \<Longrightarrow> set vars \<subseteq> dom st' \<and> st' = st |` set vars"
  by (auto simp: over_variables_def restrict_map_def split: if_splits)

lemma dom_boolean_to_spin: "dom (boolean_to_spin z) = dom z"
  by (auto simp: boolean_to_spin_def dom_def)

lemma set_state_result:
  assumes "set_state s st = (None, s')"
  shows "set (variables s) \<subseteq> dom (state s') \<and> (\<exists>z. s' = s\<lparr>state := z\<rparr>)"
proof (cases "over_variables (variables s) st")
  case (Inl e)
  with assms show ?thesis
    by (cases "sim_class s")
      (simp_all add: set_state_def SpinSimulation_set_state_def BooleanSimulation_set_state_def)
next
  case (Inr st')
  note d = over_variables_dom [OF Inr]
  show ?thesis
  proof (cases "sim_class s")
    case SpinSimulation
    with assms Inr have "s' = s\<lparr>state := st'\<rparr>"
      by (simp add: set_state_def SpinSimulation_set_state_def Let_def split: if_splits)
    with d show ?thesis by auto
  next
    case BooleanSimulation
    with assms Inr have "s' = s\<lparr>state := boolean_to_spin st'\<rparr>"
      by (simp add: set_state_def BooleanSimulation_set_state_def split: if_splits)
    with d show ?thesis by (auto simp: dom_boolean_to_spin)
  qed
qed

lemma simulation_init_result:
  assumes "simulation_init c model init mem = Inr s"
    and "distinct (map fst (model_items model))"
  shows "sim_ok (model_items model) s \<and> memory s = mem \<and> past_states s = [] \<and> sim_class s = c"
proof -
  define vars where "vars =
     (case model_variables model of
        Some vs \<Rightarrow> vs
      | None \<Rightarrow> (case init of Some d \<Rightarrow> map fst d
                | None \<Rightarrow> remdups (concat (map fst (model_items model)))))"
  define init_state where "init_state =
     (case init of Some d \<Rightarrow> map_of d | None \<Rightarrow> map_of (map (\<lambda>v. (v, 1)) vars))"
  define self where "self = \<lparr>sim_class = c, variables = vars, initial_state = init_state,
     state = Map.empty, past_states = [], memory = mem, subgraphs = Map.empty\<rparr>"
  from assms(1) have run: "(case set_state self init_state of
        (Some e, _) \<Rightarrow> Inl e
      | (None, self') \<Rightarrow>
          (case build_subgraphs (model_items model) (map_of (map (\<lambda>v. (v, [])) vars)) of
             Inl e \<Rightarrow> Inl e
           | Inr sg \<Rightarrow> Inr (self'\<lparr>subgraphs := sg\<rparr>))) = Inr s"
    by (simp only: simulation_init_def Let_def vars_def init_state_def self_def)
  then obtain self' sg where st: "set_state self init_state = (None, self')"
    and sg: "build_subgraphs (model_items model) (map_of (map (\<lambda>v. (v, [])) vars)) = Inr sg"
    and s: "s = self'\<lparr>subgraphs := sg\<rparr>"
    by (auto split: prod.splits option.splits sum.splits)
  from set_state_result [OF st] obtain z where dom: "set (variables self) \<subseteq> dom (state self')"
    and self': "self' = self\<lparr>state := z\<rparr>"
    by blast
  from build_subgraphs_incident [OF sg assms(2)]
  have idx: "\<forall>v \<in> set vars. sg v = Some (incident v (model_items model))"
    and labels: "\<forall>(k, c) \<in> set (model_items model). set k \<subseteq> set vars"
    by simp_all
  from dom self' have "set vars \<subseteq> dom z" by (simp add: self_def)
  with idx labels show ?thesis by (simp add: s self' self_def sim_ok_def)
qed

section \<open>Updates keep the engine well formed\<close>

lemma sim_ok_state:
  "sim_ok H s \<Longrightarrow> set (variables s) \<subseteq> dom z \<Longrightarrow> sim_ok H (s\<lparr>state := z\<rparr>)"
  by (simp add: sim_ok_def)

lemma sim_ok_past_states: "sim_ok H (s\<lparr>past_states := ps\<rparr>) = sim_ok H s"
  by (simp add: sim_ok_def)

lemma add_past_state_frame: "\<exists>ps. add_past_state s = s\<lparr>past_states := ps\<rparr>"
proof (cases "memory s = 0")
  case True
  then have "add_past_state s = s\<lparr>past_states := past_states s\<rparr>"
    by (simp add: add_past_state_def)
  then show ?thesis by blast
next
  case False
  then show ?thesis by (auto simp: add_past_state_def Let_def)
qed

lemma sim_ok_add_past_state: "sim_ok H (add_past_state s) = sim_ok H s"
  using add_past_state_frame [of s] by (auto simp: sim_ok_past_states)

lemma add_past_state_fields:
  "variables (add_past_state s) = variables s \<and> state (add_past_state s) = state s \<and>
   memory (add_past_state s) = memory s"
  using add_past_state_frame [of s] by auto

lemma incident_labels:
  assumes "\<forall>(k, c) \<in> set H. set k \<subseteq> A"
  shows "\<forall>(k, c) \<in> set (incident i H). set k \<subseteq> A"
  using assms by (auto simp: incident_def)

lemma delta_E_ok:
  assumes "sim_ok H s" and "i \<in> set (variables s)"
  shows "delta_E s i = Inr (- 2 * full_energy (state s) (incident i H))"
proof -
  from assms have sg: "subgraphs s i = Some (incident i H)" by (simp add: sim_ok_def)
  from assms(1) have "\<forall>(k, c) \<in> set H. set k \<subseteq> dom (state s)"
    by (fastforce simp: sim_ok_def)
  then have "\<forall>(k, c) \<in> set (incident i H). set k \<subseteq> dom (state s)" by (rule incident_labels)
  then have "puso_value (state s) (incident i H) = Inr (full_energy (state s) (incident i H))"
    by (rule puso_value_total)
  with sg show ?thesis by (simp add: delta_E_def)
qed

lemma energy_ok:
  assumes "sim_ok H s"
  shows "puso_value (state s) H = Inr (full_energy (state s) H)"
proof -
  from assms have "\<forall>(k, c) \<in> set H. set k \<subseteq> dom (state s)"
    by (fastforce simp: sim_ok_def)
  then show ?thesis by (rule puso_value_total)
qed

lemma do_flip_ok:
  assumes "sim_ok H (engine w)" and "i \<in> set (variables (engine w))"
  shows "\<exists>x. state (engine w) i = Some x \<and>
           do_flip w i = (None, w\<lparr>engine := (engine w)\<lparr>state := (state (engine w))(i \<mapsto> x * (- 1))\<rparr>\<rparr>)"
proof -
  from assms obtain x where "state (engine w) i = Some x" by (auto simp: sim_ok_def)
  then show ?thesis by (simp add: do_flip_def flip_bit_def)
qed

lemma sim_ok_flipped:
  assumes "sim_ok H s"
  shows "sim_ok H (s\<lparr>state := (state s)(i \<mapsto> y)\<rparr>)"
proof (rule sim_ok_state [OF assms])
  from assms have "set (variables s) \<subseteq> dom (state s)" by (simp add: sim_ok_def)
  then show "set (variables s) \<subseteq> dom ((state s)(i \<mapsto> y))" by auto
qed

lemma candidate_ok:
  assumes "sim_ok H (engine w)" and "i \<in> set (variables (engine w))"
  shows "\<exists>w'. candidate R T w i = (None, w') \<and> sim_ok H (engine w') \<and>
           variables (engine w') = variables (engine w)"
proof -
  note dE = delta_E_ok [OF assms]
  let ?dE = "- 2 * full_energy (state (engine w)) (incident i H)"
  from do_flip_ok [OF assms] obtain x where
    flip: "do_flip w i = (None, w\<lparr>engine := (engine w)\<lparr>state := (state (engine w))(i \<mapsto> x * (- 1))\<rparr>\<rparr>)"
    by blast
  note ok = sim_ok_flipped [OF assms(1), of i "x * (- 1)"]
  show ?thesis
  proof (cases "?dE \<le> 0")
    case True
    with dE flip have "candidate R T w i =
        (None, w\<lparr>engine := (engine w)\<lparr>state := (state (engine w))(i \<mapsto> x * (- 1))\<rparr>\<rparr>)"
      by (simp add: candidate_def)
    with ok show ?thesis by simp
  next
    case False
    show ?thesis
    proof (cases "T = 0")
      case True
      with dE False have "candidate R T w i = (None, w)" by (simp add: candidate_def)
      with assms(1) show ?thesis by simp
    next
      case nz: False
      obtain r g' where d: "random_draw R (rng w) = (r, g')" by (cases "random_draw R (rng w)")
      let ?w = "w\<lparr>rng := g'\<rparr>"
      from assms have "sim_ok H (engine ?w)" "i \<in> set (variables (engine ?w))" by simp_all
      from do_flip_ok [OF this] obtain x' where
        flip': "do_flip ?w i =
          (None, ?w\<lparr>engine := (engine ?w)\<lparr>state := (state (engine ?w))(i \<mapsto> x' * (- 1))\<rparr>\<rparr>)"
        by blast
      note ok' = sim_ok_flipped [OF assms(1), of i "x' * (- 1)"]
      show ?thesis
      proof (cases "r < exp (- ?dE / T)")
        case True
        with dE False nz d flip' have "candidate R T w i =
            (None, ?w\<lparr>engine := (engine ?w)\<lparr>state := (state (engine ?w))(i \<mapsto> x' * (- 1))\<rparr>\<rparr>)"
          by (simp add: candidate_def)
        with ok' show ?thesis by simp
      next
        case False
        with dE \<open>\<not> ?dE \<le> 0\<close> nz d have "candidate R T w i = (None, ?w)"
          by (simp add: candidate_def)
        with assms(1) show ?thesis by simp
      qed
    qed
  qed
qed

lemma sweep_loop_ok:
  assumes "sim_ok H (engine w)" and "set drawn \<subseteq> set (variables (engine w))"
  shows "\<exists>w'. sweep_loop R T drawn w = (None, w') \<and> sim_ok H (engine w') \<and>
           variables (engine w') = variables (engine w)"
  using assms
proof (induction drawn arbitrary: w)
  case Nil
  then show ?case by simp
next
  case (Cons i drawn)
  from Cons.prems have "i \<in> set (variables (engine w))" by simp
  from candidate_ok [OF Cons.prems(1) this, of R T] obtain w1
    where c: "candidate R T w i = (None, w1)" and ok: "sim_ok H (engine w1)"
      and v: "variables (engine w1) = variables (engine w)"
    by blast
  from Cons.prems v have "set drawn \<subseteq> set (variables (engine w1))" by simp
  from Cons.IH [OF ok this] c v show ?case by auto
qed

lemma single_update_ok:
  assumes "random_ok R" and "sim_ok H (engine w)"
  shows "\<exists>w'. single_update R T w = (None, w') \<and> sim_ok H (engine w') \<and>
           variables (engine w') = variables (engine w)"
proof -
  let ?w1 = "w\<lparr>engine := add_past_state (engine w)\<rparr>"
  let ?vars = "variables (engine ?w1)"
  obtain drawn g' where ch: "choices R (rng ?w1) ?vars (length ?vars) = (drawn, g')"
    by (cases "choices R (rng ?w1) ?vars (length ?vars)")
  from assms(1) have "set (fst (choices R (rng ?w1) ?vars (length ?vars))) \<subseteq> set ?vars"
    by (simp add: random_ok_def)
  with ch have sub: "set drawn \<subseteq> set (variables (engine (?w1\<lparr>rng := g'\<rparr>)))" by simp
  from assms(2) have ok: "sim_ok H (engine (?w1\<lparr>rng := g'\<rparr>))"
    by (simp add: sim_ok_add_past_state)
  from sweep_loop_ok [OF ok sub, of R T] obtain w'
    where "sweep_loop R T drawn (?w1\<lparr>rng := g'\<rparr>) = (None, w')" and "sim_ok H (engine w')"
      and "variables (engine w') = variables (engine (?w1\<lparr>rng := g'\<rparr>))"
    by blast
  with ch show ?thesis by (auto simp: single_update_def Let_def add_past_state_fields)
qed

lemma repeat_call_ok:
  assumes "\<And>w. P w \<Longrightarrow> \<exists>w'. f w = (None, w') \<and> P w'" and "P w"
  shows "\<exists>w'. repeat_call n f w = (None, w') \<and> P w'"
  using assms(2)
proof (induction n arbitrary: w)
  case 0
  then show ?case by simp
next
  case (Suc n)
  from assms(1) [OF Suc.prems] obtain w1 where "f w = (None, w1)" and "P w1" by blast
  with Suc.IH [OF \<open>P w1\<close>] show ?case by simp
qed

lemma update_ok:
  assumes "random_ok R" and "sim_ok H (engine w)" and "0 \<le> n"
  shows "\<exists>w'. update R T n seed w = (None, w') \<and> sim_ok H (engine w')"
proof -
  let ?w1 = "reseed R seed w"
  have e: "engine ?w1 = engine w" by (cases seed) (simp_all add: reseed_def)
  with assms(2) have ok1: "sim_ok H (engine ?w1)" by simp
  have step: "\<exists>w'. single_update R T w = (None, w') \<and> sim_ok H (engine w')"
    if "sim_ok H (engine w)" for w :: "('a, 'b) world"
    using single_update_ok [OF assms(1) that] by blast
  consider "n = 0" | "n = 1" | "1 < n" using assms(3) by linarith
  then show ?thesis
  proof cases
    case 1
    with ok1 show ?thesis by (simp add: update_def)
  next
    case 2
    with step [OF ok1] show ?thesis by (simp add: update_def)
  next
    case 3
    from repeat_call_ok [of "\<lambda>w. sim_ok H (engine w)" "single_update R T", OF step ok1]
    obtain w' where "repeat_call (nat n) (single_update R T) ?w1 = (None, w')"
      and "sim_ok H (engine w')"
      by blast
    with 3 show ?thesis by (simp add: update_def)
  qed
qed

lemma schedule_loop_ok:
  assumes "random_ok R" and "sim_ok H (engine w)" and "\<forall>(T, n) \<in> set schedule. 0 \<le> n"
  shows "\<exists>w'. schedule_loop R schedule w = (None, w') \<and> sim_ok H (engine w')"
  using assms(2,3)
proof (induction schedule arbitrary: w)
  case Nil
  then show ?case by simp
next
  case (Cons p schedule)
  obtain T n where p: "p = (T, n)" by (cases p)
  with Cons.prems have n: "0 \<le> n" and rest: "\<forall>(T, n) \<in> set schedule. 0 \<le> n" by simp_all
  from update_ok [OF assms(1) Cons.prems(1) n, of T None] obtain w1
    where u: "update R T n None w = (None, w1)" and ok: "sim_ok H (engine w1)"
    by blast
  from Cons.IH [OF ok rest] u show ?case by (simp add: p)
qed

section \<open>An engine without memory keeps no history\<close>

lemma single_update_no_history:
  assumes "no_history w" and "single_update R T w = (r, w')"
  shows "no_history w'"
proof -
  from assms(1) have "add_past_state (engine w) = engine w"
    by (simp add: no_history_def add_past_state_def)
  with single_update_frame [OF assms(2)] obtain st where "engine w' = (engine w)\<lparr>state := st\<rparr>"
    by auto
  with assms(1) show ?thesis by (simp add: no_history_def)
qed

lemma repeat_call_inv:
  assumes "\<And>w r w'. P w \<Longrightarrow> f w = (r, w') \<Longrightarrow> P w'"
  shows "P w \<Longrightarrow> repeat_call n f w = (r, w') \<Longrightarrow> P w'"
proof (induction n arbitrary: w)
  case 0
  then show ?case by simp
next
  case (Suc n)
  obtain r1 w1 where f: "f w = (r1, w1)" by (cases "f w")
  from assms [OF Suc.prems(1) f] have p1: "P w1" .
  show ?case
  proof (cases r1)
    case None
    with Suc.prems(2) f have "repeat_call n f w1 = (r, w')" by simp
    from Suc.IH [OF p1 this] show ?thesis .
  next
    case (Some e)
    with Suc.prems(2) f p1 show ?thesis by simp
  qed
qed

lemma reseed_engine: "engine (reseed R seed w) = engine w"
  by (cases seed) (simp_all add: reseed_def)

lemma reseed_no_history: "no_history (reseed R seed w) = no_history w"
  by (simp add: no_history_def reseed_engine)

lemma update_no_history:
  assumes "no_history w" and "update R T n seed w = (r, w')"
  shows "no_history w'"
proof -
  let ?w1 = "reseed R seed w"
  from assms(1) have h1: "no_history ?w1" by (simp add: reseed_no_history)
  consider "n < 0" | "n = 0" | "n = 1" | "1 < n" by linarith
  then show ?thesis
  proof cases
    case 1
    with assms(2) h1 show ?thesis by (auto simp: update_def)
  next
    case 2
    with assms(2) h1 show ?thesis by (auto simp: update_def)
  next
    case 3
    with assms(2) have "single_update R T ?w1 = (r, w')" by (simp add: update_def)
    from single_update_no_history [OF h1 this] show ?thesis .
  next
    case 4
    with assms(2) have "repeat_call (nat n) (single_update R T) ?w1 = (r, w')"
      by (simp add: update_def)
    from repeat_call_inv [of no_history "single_update R T", OF single_update_no_history h1 this]
    show ?thesis .
  qed
qed

lemma schedule_loop_no_history:
  "no_history w \<Longrightarrow> schedule_loop R schedule w = (r, w') \<Longrightarrow> no_history w'"
proof (induction schedule arbitrary: w)
  case Nil
  then show ?case by simp
next
  case (Cons p schedule)
  obtain T n where p: "p = (T, n)" by (cases p)
  obtain r1 w1 where u: "update R T n None w = (r1, w1)" by (cases "update R T n None w")
  from update_no_history [OF Cons.prems(1) u] have h1: "no_history w1" .
  show ?case
  proof (cases r1)
    case None
    with Cons.prems(2) u p have "schedule_loop R schedule w1 = (r, w')" by simp
    from Cons.IH [OF h1 this] show ?thesis .
  next
    case (Some e)
    with Cons.prems(2) u p h1 show ?thesis by simp
  qed
qed

lemma do_call_no_history:
  assumes "no_history w"
  shows "no_history (do_call R w c)"
proof (cases c)
  case (UpdateCall T n seed)
  obtain r w' where u: "update R T n seed w = (r, w')" by (cases "update R T n seed w")
  from update_no_history [OF assms u] u UpdateCall show ?thesis by simp
next
  case (ScheduleCall schedule seed)
  obtain r w' where u: "schedule_loop R schedule (reseed R seed w) = (r, w')"
    by (cases "schedule_loop R schedule (reseed R seed w)")
  from assms have "no_history (reseed R seed w)" by (simp add: reseed_no_history)
  from schedule_loop_no_history [OF this u] u ScheduleCall show ?thesis
    by (simp add: schedule_update_def)
qed

lemma run_calls_no_history: "no_history w \<Longrightarrow> no_history (run_calls R w calls)"
  unfolding run_calls_def
proof (induction calls arbitrary: w)
  case Nil
  then show ?case by simp
next
  case (Cons c calls)
  from Cons.IH [OF do_call_no_history [OF Cons.prems, of R c]] show ?case by simp
qed

lemma simulation_init_fields:
  assumes "simulation_init c model init mem = Inr s"
  shows "memory s = mem \<and> past_states s = [] \<and> sim_class s = c"
proof -
  define vars where "vars =
     (case model_variables model of
        Some vs \<Rightarrow> vs
      | None \<Rightarrow> (case init of Some d \<Rightarrow> map fst d
                | None \<Rightarrow> remdups (concat (map fst (model_items model)))))"
  define init_state where "init_state =
     (case init of Some d \<Rightarrow> map_of d | None \<Rightarrow> map_of (map (\<lambda>v. (v, 1)) vars))"
  define self where "self = \<lparr>sim_class = c, variables = vars, initial_state = init_state,
     state = Map.empty, past_states = [], memory = mem, subgraphs = Map.empty\<rparr>"
  from assms(1) have run: "(case set_state self init_state of
        (Some e, _) \<Rightarrow> Inl e
      | (None, self') \<Rightarrow>
          (case build_subgraphs (model_items model) (map_of (map (\<lambda>v. (v, [])) vars)) of
             Inl e \<Rightarrow> Inl e
           | Inr sg \<Rightarrow> Inr (self'\<lparr>subgraphs := sg\<rparr>))) = Inr s"
    by (simp only: simulation_init_def Let_def vars_def init_state_def self_def)
  then obtain self' sg where st: "set_state self init_state = (None, self')"
    and s: "s = self'\<lparr>subgraphs := sg\<rparr>"
    by (auto split: prod.splits option.splits sum.splits)
  from set_state_result [OF st] obtain z where "self' = self\<lparr>state := z\<rparr>" by blast
  with s show ?thesis by (simp add: self_def)
qed

section \<open>Zero temperature\<close>

lemma candidate_zero:
  assumes "sim_ok H (engine w)" and "i \<in> set (variables (engine w))"
    and "\<forall>(k, c) \<in> set H. distinct k"
  shows "\<exists>x. state (engine w) i = Some x \<and>
           candidate R 0 w i =
             (None, if - 2 * full_energy (state (engine w)) (incident i H) \<le> 0
                    then w\<lparr>engine := (engine w)\<lparr>state := (state (engine w))(i \<mapsto> x * (- 1))\<rparr>\<rparr>
                    else w) \<and>
           full_energy (state (engine (snd (candidate R 0 w i)))) H
             \<le> full_energy (state (engine w)) H"
proof -
  note dE = delta_E_ok [OF assms(1,2)]
  let ?dE = "- 2 * full_energy (state (engine w)) (incident i H)"
  from do_flip_ok [OF assms(1,2)] obtain x where x: "state (engine w) i = Some x" and
    flip: "do_flip w i = (None, w\<lparr>engine := (engine w)\<lparr>state := (state (engine w))(i \<mapsto> x * (- 1))\<rparr>\<rparr>)"
    by blast
  show ?thesis
  proof (cases "?dE \<le> 0")
    case True
    with dE flip have c: "candidate R 0 w i =
        (None, w\<lparr>engine := (engine w)\<lparr>state := (state (engine w))(i \<mapsto> x * (- 1))\<rparr>\<rparr>)"
      by (simp add: candidate_def)
    from full_energy_flip [of "state (engine w)" i x H, OF x assms(3)] True
    have "full_energy ((state (engine w))(i \<mapsto> x * (- 1))) H \<le> full_energy (state (engine w)) H"
      by linarith
    with c x True show ?thesis by simp
  next
    case False
    with dE have "candidate R 0 w i = (None, w)" by (simp add: candidate_def)
    with x False show ?thesis by simp
  qed
qed

lemma candidate_zero_ok:
  assumes "sim_ok H (engine w)" and "i \<in> set (variables (engine w))"
    and "\<forall>(k, c) \<in> set H. distinct k"
  shows "\<exists>w'. candidate R 0 w i = (None, w') \<and> sim_ok H (engine w') \<and>
           variables (engine w') = variables (engine w) \<and>
           full_energy (state (engine w')) H \<le> full_energy (state (engine w)) H"
proof -
  from candidate_ok [OF assms(1,2), of R 0] obtain w' where c: "candidate R 0 w i = (None, w')"
    and ok: "sim_ok H (engine w')" "variables (engine w') = variables (engine w)"
    by blast
  from candidate_zero [OF assms, of R] c
  have "full_energy (state (engine w')) H \<le> full_energy (state (engine w)) H" by auto
  with c ok show ?thesis by blast
qed

lemma sweep_loop_zero_ok:
  assumes "\<forall>(k, c) \<in> set H. distinct k"
  shows "sim_ok H (engine w) \<Longrightarrow> set drawn \<subseteq> set (variables (engine w)) \<Longrightarrow>
         \<exists>w'. sweep_loop R 0 drawn w = (None, w') \<and> sim_ok H (engine w') \<and>
           full_energy (state (engine w')) H \<le> full_energy (state (engine w)) H"
proof (induction drawn arbitrary: w)
  case Nil
  then show ?case by simp
next
  case (Cons i drawn)
  from Cons.prems have "i \<in> set (variables (engine w))" by simp
  from candidate_zero_ok [OF Cons.prems(1) this assms, of R] obtain w1
    where c: "candidate R 0 w i = (None, w1)" and ok: "sim_ok H (engine w1)"
      and v: "variables (engine w1) = variables (engine w)"
      and e: "full_energy (state (engine w1)) H \<le> full_energy (state (engine w)) H"
    by blast
  from Cons.prems v have "set drawn \<subseteq> set (variables (engine w1))" by simp
  from Cons.IH [OF ok this] obtain w' where "sweep_loop R 0 drawn w1 = (None, w')"
    and "sim_ok H (engine w')"
    and "full_energy (state (engine w')) H \<le> full_energy (state (engine w1)) H"
    by blast
  with c e show ?case by auto
qed

lemma single_update_zero_ok:
  assumes "random_ok R" and "sim_ok H (engine w)" and "\<forall>(k, c) \<in> set H. distinct k"
  shows "\<exists>w'. single_update R 0 w = (None, w') \<and> sim_ok H (engine w') \<and>
           full_energy (state (engine w')) H \<le> full_energy (state (engine w)) H"
proof -
  let ?w1 = "w\<lparr>engine := add_past_state (engine w)\<rparr>"
  let ?vars = "variables (engine ?w1)"
  obtain drawn g' where ch: "choices R (rng ?w1) ?vars (length ?vars) = (drawn, g')"
    by (cases "choices R (rng ?w1) ?vars (length ?vars)")
  from assms(1) have "set (fst (choices R (rng ?w1) ?vars (length ?vars))) \<subseteq> set ?vars"
    by (simp add: random_ok_def)
  with ch have sub: "set drawn \<subseteq> set (variables (engine (?w1\<lparr>rng := g'\<rparr>)))" by simp
  from assms(2) have ok: "sim_ok H (engine (?w1\<lparr>rng := g'\<rparr>))"
    by (simp add: sim_ok_add_past_state)
  from sweep_loop_zero_ok [OF assms(3) ok sub, of R] obtain w'
    where "sweep_loop R 0 drawn (?w1\<lparr>rng := g'\<rparr>) = (None, w')" and "sim_ok H (engine w')"
      and "full_energy (state (engine w')) H
             \<le> full_energy (state (engine (?w1\<lparr>rng := g'\<rparr>))) H"
    by blast
  with ch show ?thesis by (auto simp: single_update_def Let_def add_past_state_fields)
qed

lemma update_zero_ok:
  assumes "random_ok R" and "sim_ok H (engine w)" and "\<forall>(k, c) \<in> set H. distinct k"
    and "0 \<le> n"
  shows "\<exists>w'. update R 0 n seed w = (None, w') \<and> sim_ok H (engine w') \<and>
           full_energy (state (engine w')) H \<le> full_energy (state (engine w)) H"
proof -
  let ?w1 = "reseed R seed w"
  let ?P = "\<lambda>w'. sim_ok H (engine w') \<and>
                full_energy (state (engine w')) H \<le> full_energy (state (engine w)) H"
  from assms(2) have p1: "?P ?w1" by (simp add: reseed_engine)
  have step: "\<exists>w''. single_update R 0 w' = (None, w'') \<and> ?P w''" if "?P w'" for w'
  proof -
    from that have "sim_ok H (engine w')" by simp
    from single_update_zero_ok [OF assms(1) this assms(3)] that show ?thesis by fastforce
  qed
  consider "n = 0" | "n = 1" | "1 < n" using assms(4) by linarith
  then show ?thesis
  proof cases
    case 1
    with p1 show ?thesis by (simp add: update_def)
  next
    case 2
    with step [OF p1] show ?thesis by (simp add: update_def)
  next
    case 3
    from repeat_call_ok [of ?P "single_update R 0", OF step p1]
    obtain w' where "repeat_call (nat n) (single_update R 0) ?w1 = (None, w')" and "?P w'"
      by blast
    with 3 show ?thesis by (simp add: update_def)
  qed
qed

section \<open>Well-formedness through any sequence of calls\<close>

lemma update_sim_ok:
  assumes "random_ok R" and "sim_ok H (engine w)"
  shows "sim_ok H (engine (snd (update R T n seed w)))"
proof (cases "n < 0")
  case True
  with assms(2) show ?thesis by (simp add: update_def reseed_engine)
next
  case False
  then have "0 \<le> n" by simp
  from update_ok [OF assms this, of T seed] show ?thesis by auto
qed

lemma schedule_loop_sim_ok:
  assumes "random_ok R"
  shows "sim_ok H (engine w) \<Longrightarrow> sim_ok H (engine (snd (schedule_loop R schedule w)))"
proof (induction schedule arbitrary: w)
  case Nil
  then show ?case by simp
next
  case (Cons p schedule)
  obtain T n where p: "p = (T, n)" by (cases p)
  obtain r1 w1 where u: "update R T n None w = (r1, w1)" by (cases "update R T n None w")
  from update_sim_ok [OF assms Cons.prems, of T n None] u have ok: "sim_ok H (engine w1)" by simp
  show ?case
  proof (cases r1)
    case None
    with u p Cons.IH [OF ok] show ?thesis by simp
  next
    case (Some e)
    with u p ok show ?thesis by simp
  qed
qed

lemma do_call_sim_ok:
  assumes "random_ok R" and "sim_ok H (engine w)"
  shows "sim_ok H (engine (do_call R w c))"
proof (cases c)
  case (UpdateCall T n seed)
  with update_sim_ok [OF assms] show ?thesis by simp
next
  case (ScheduleCall schedule seed)
  from assms(2) have "sim_ok H (engine (reseed R seed w))" by (simp add: reseed_engine)
  from schedule_loop_sim_ok [OF assms(1) this] ScheduleCall show ?thesis
    by (simp add: schedule_update_def)
qed

lemma run_calls_sim_ok:
  assumes "random_ok R"
  shows "sim_ok H (engine w) \<Longrightarrow> sim_ok H (engine (run_calls R w calls))"
  unfolding run_calls_def
proof (induction calls arbitrary: w)
  case Nil
  then show ?case by simp
next
  case (Cons c calls)
  from Cons.IH [OF do_call_sim_ok [OF assms Cons.prems, of c]] show ?case by simp
qed

lemma reachable_sim_ok:
  assumes "random_ok R" and "simulation_init c model init mem = Inr s"
    and "distinct (map fst (model_items model))"
  shows "sim_ok (model_items model) (engine (run_calls R \<lparr>rng = g, engine = s\<rparr> calls))"
proof -
  from simulation_init_result [OF assms(2,3)]
  have "sim_ok (model_items model) (engine \<lparr>rng = g, engine = s\<rparr>)" by simp
  then show ?thesis by (rule run_calls_sim_ok [OF assms(1)])
qed

section \<open>The constructor succeeds on a plain dictionary\<close>

lemma add_term_succeeds:
  "set vs \<subseteq> dom sg \<Longrightarrow> \<exists>sg'. add_term vs k c sg = Inr sg' \<and> dom sg' = dom sg"
proof (induction vs arbitrary: sg)
  case Nil
  then show ?case by simp
next
  case (Cons u vs)
  from Cons.prems obtain d where d: "sg u = Some d" by auto
  define sg1 where "sg1 = sg(u \<mapsto> AList.update k c d)"
  from d have dom1: "dom sg1 = dom sg" by (auto simp: sg1_def)
  with Cons.prems have "set vs \<subseteq> dom sg1" by simp
  from Cons.IH [OF this] obtain sg' where "add_term vs k c sg1 = Inr sg'" and "dom sg' = dom sg1"
    by blast
  with d dom1 show ?case by (simp add: sg1_def)
qed

lemma build_subgraphs_succeeds:
  "\<forall>(k, c) \<in> set H. set k \<subseteq> dom sg \<Longrightarrow> \<exists>sg'. build_subgraphs H sg = Inr sg'"
proof (induction H arbitrary: sg)
  case Nil
  then show ?case by simp
next
  case (Cons p H)
  obtain k c where p: "p = (k, c)" by (cases p)
  with Cons.prems have "set k \<subseteq> dom sg" by simp
  from add_term_succeeds [OF this] obtain sg1 where a: "add_term k k c sg = Inr sg1"
    and d: "dom sg1 = dom sg"
    by blast
  from Cons.prems d have "\<forall>(k, c) \<in> set H. set k \<subseteq> dom sg1" by simp
  from Cons.IH [OF this] a show ?case by (simp add: p)
qed

lemma default_state: "map_of (map (\<lambda>v. (v, 1 :: int)) vars) v = (if v \<in> set vars then Some 1 else None)"
  by (induction vars) auto

lemma SpinSimulation_init_succeeds:
  "\<exists>s. SpinSimulation_init \<lparr>model_items = H, model_variables = None\<rparr> None mem = Inr s"
proof -
  define vars where "vars = remdups (concat (map fst H))"
  define init_state where "init_state = map_of (map (\<lambda>v. (v, 1 :: int)) vars)"
  define self where "self = \<lparr>sim_class = SpinSimulation, variables = vars,
     initial_state = init_state, state = Map.empty, past_states = [], memory = mem,
     subgraphs = Map.empty\<rparr>"
  have "over_variables vars init_state = Inr (init_state |` set vars)"
    by (simp add: over_variables_def init_state_def default_state)
  moreover have "(init_state |` set vars) v = Some 1" if "v \<in> set vars" for v
    using that by (simp add: init_state_def default_state)
  ultimately have st: "set_state self init_state = (None, self\<lparr>state := init_state |` set vars\<rparr>)"
    by (simp add: set_state_def SpinSimulation_set_state_def self_def Let_def)
  have "\<forall>(k, c) \<in> set H. set k \<subseteq> dom (map_of (map (\<lambda>v. (v, [])) vars))"
    unfolding dom_empty_index by (auto simp: vars_def)
  from build_subgraphs_succeeds [OF this] obtain sg
    where "build_subgraphs H (map_of (map (\<lambda>v. (v, [])) vars)) = Inr sg"
    by blast
  with st have "simulation_init SpinSimulation \<lparr>model_items = H, model_variables = None\<rparr> None mem =
      Inr (self\<lparr>state := init_state |` set vars, subgraphs := sg\<rparr>)"
    by (simp add: simulation_init_def Let_def vars_def [symmetric] init_state_def [symmetric]
        self_def [symmetric])
  then show ?thesis by (simp add: SpinSimulation_init_def)
qed

section \<open>Claims about the engine\<close>

lemmas engine_eval =
  update_def reseed_def single_update_def add_past_state_def state_view_def candidate_def
  delta_E_def do_flip_def flip_bit_def counter_random_def field_engine_def Let_def

text \<open>
  Claim C2.  Take the engine the constructor builds for a model (a dictionary, so with
  pairwise distinct keys) whose terms each have pairwise distinct labels, any
  assignment \<open>z\<close> that holds every variable (in particular any assignment of \<open>-1\<close>
  and \<open>+1\<close>), and any variable \<open>i\<close>.  The index entry of \<open>i\<close> is the list of the
  model's terms incident to \<open>i\<close>; the value \<open>dE\<close> that \<^verbatim>\<open>update\<close> computes is \<open>-2\<close>
  times their energy; and \<open>dE\<close> equals the energy of the whole model after
  \<^verbatim>\<open>_flip_bit(i)\<close> minus the energy before, both as \<open>puso_value\<close> returns them.
  (For a plain dictionary and the default initial state the constructor always
  succeeds: \<open>SpinSimulation_init_succeeds\<close>.)
\<close>

theorem delta_is_energy_difference:
  assumes "simulation_init c model init mem = Inr s"
    and "distinct (map fst (model_items model))"
    and "\<forall>(k, c) \<in> set (model_items model). distinct k"
    and "set (variables s) \<subseteq> dom z"
    and "i \<in> set (variables s)"
  shows "\<exists>x dE after before.
           z i = Some x \<and>
           subgraphs s i = Some (incident i (model_items model)) \<and>
           delta_E (s\<lparr>state := z\<rparr>) i = Inr dE \<and>
           dE = - 2 * full_energy z (incident i (model_items model)) \<and>
           flip_bit (s\<lparr>state := z\<rparr>) i = Inr (s\<lparr>state := z(i \<mapsto> x * (- 1))\<rparr>) \<and>
           puso_value (z(i \<mapsto> x * (- 1))) (model_items model) = Inr after \<and>
           puso_value z (model_items model) = Inr before \<and>
           after = full_energy (z(i \<mapsto> x * (- 1))) (model_items model) \<and>
           before = full_energy z (model_items model) \<and>
           dE = after - before"
proof -
  let ?H = "model_items model"
  from simulation_init_result [OF assms(1,2)] have ok: "sim_ok ?H s" by simp
  from ok assms(4) have okz: "sim_ok ?H (s\<lparr>state := z\<rparr>)" by (rule sim_ok_state)
  from assms(4,5) obtain x where x: "z i = Some x" by auto
  from ok assms(5) have sg: "subgraphs s i = Some (incident i ?H)" by (simp add: sim_ok_def)
  from delta_E_ok [OF okz] assms(5)
  have dE: "delta_E (s\<lparr>state := z\<rparr>) i = Inr (- 2 * full_energy z (incident i ?H))" by simp
  from x have fl: "flip_bit (s\<lparr>state := z\<rparr>) i = Inr (s\<lparr>state := z(i \<mapsto> x * (- 1))\<rparr>)"
    by (simp add: flip_bit_def)
  from energy_ok [OF okz] have before: "puso_value z ?H = Inr (full_energy z ?H)" by simp
  from sim_ok_flipped [OF okz, of i "x * (- 1)"]
  have "sim_ok ?H (s\<lparr>state := z(i \<mapsto> x * (- 1))\<rparr>)" by simp
  from energy_ok [OF this]
  have after: "puso_value (z(i \<mapsto> x * (- 1))) ?H = Inr (full_energy (z(i \<mapsto> x * (- 1))) ?H)"
    by simp
  from full_energy_flip [of z i x ?H, OF x assms(3)]
  have "- 2 * full_energy z (incident i ?H) =
          full_energy (z(i \<mapsto> x * (- 1))) ?H - full_energy z ?H"
    by simp
  with x sg dE fl before after show ?thesis by blast
qed


lemma chain_engine_init: "simulation_init SpinSimulation chain_model None 0 = Inr chain_engine"
  by (auto simp add: simulation_init_def chain_model_def chain_engine_def
      set_state_def SpinSimulation_set_state_def over_variables_def restrict_map_def Let_def
      fun_eq_iff)

theorem delta_is_energy_difference_witness:
  "simulation_init SpinSimulation chain_model None 0 = Inr chain_engine \<and>
   delta_E (chain_engine\<lparr>state := [0 \<mapsto> 1, 1 \<mapsto> - 1, 2 \<mapsto> 1]\<rparr>) 1 = Inr 2 \<and>
   puso_value [0 \<mapsto> 1, 1 \<mapsto> - 1, 2 \<mapsto> 1] (model_items chain_model) = Inr (- 1) \<and>
   puso_value ([0 \<mapsto> 1, 1 \<mapsto> - 1, 2 \<mapsto> 1](1 \<mapsto> (- 1) * (- 1))) (model_items chain_model)
     = Inr 1 \<and>
   (\<exists>dE after before.
      delta_E (chain_engine\<lparr>state := [0 \<mapsto> 1, 1 \<mapsto> - 1, 2 \<mapsto> 1]\<rparr>) 1 = Inr dE \<and>
      puso_value ([0 \<mapsto> 1, 1 \<mapsto> - 1, 2 \<mapsto> 1](1 \<mapsto> (- 1) * (- 1))) (model_items chain_model)
        = Inr after \<and>
      puso_value [0 \<mapsto> 1, 1 \<mapsto> - 1, 2 \<mapsto> 1] (model_items chain_model) = Inr before \<and>
      dE = after - before)"
proof -
  let ?z = "[0 \<mapsto> 1, 1 \<mapsto> - 1, 2 \<mapsto> 1] :: int assignment"
  have d: "distinct (map fst (model_items chain_model))" by (simp add: chain_model_def)
  have l: "\<forall>(k, c) \<in> set (model_items chain_model). distinct k" by (simp add: chain_model_def)
  have t: "set (variables chain_engine) \<subseteq> dom ?z" by (simp add: chain_engine_def)
  have i: "1 \<in> set (variables chain_engine)" by (simp add: chain_engine_def)
  have x: "?z 1 = Some (- 1)" by simp
  from delta_is_energy_difference [OF chain_engine_init d l t i] x
  have "\<exists>dE after before.
      delta_E (chain_engine\<lparr>state := ?z\<rparr>) 1 = Inr dE \<and>
      puso_value (?z(1 \<mapsto> (- 1) * (- 1))) (model_items chain_model) = Inr after \<and>
      puso_value ?z (model_items chain_model) = Inr before \<and>
      dE = after - before"
    by fastforce
  moreover have "delta_E (chain_engine\<lparr>state := ?z\<rparr>) 1 = Inr 2"
    by (simp add: delta_E_def chain_engine_def)
  moreover have "puso_value ?z (model_items chain_model) = Inr (- 1)"
    by (simp add: chain_model_def)
  moreover have "puso_value (?z(1 \<mapsto> (- 1) * (- 1))) (model_items chain_model) = Inr 1"
    by (simp add: chain_model_def)
  ultimately show ?thesis using chain_engine_init by blast
qed

text \<open>
  Claim C4, as the code has it.  \<^verbatim>\<open>update\<close> never looks at the sign of the
  temperature.  Take an engine as the constructor built it, after any sequence of
  earlier calls, and a random source that draws from the population.  With a negative
  temperature and a sweep count that is not negative the call raises nothing, and the
  same holds for \<^verbatim>\<open>schedule_update\<close> over phases of any temperature; the sweeps run
  and change state and history as at any other temperature.
\<close>

theorem negative_temperature_runs:
  assumes "random_ok R"
    and "simulation_init c model init mem = Inr s"
    and "distinct (map fst (model_items model))"
    and "w = run_calls R \<lparr>rng = g, engine = s\<rparr> calls"
    and "T < 0" and "0 \<le> n"
    and "\<forall>(T', n') \<in> set schedule. 0 \<le> n'"
  shows "fst (update R T n seed w) = None \<and> fst (schedule_update R schedule seed' w) = None"
proof -
  from reachable_sim_ok [OF assms(1,2,3)] assms(4)
  have ok: "sim_ok (model_items model) (engine w)" by simp
  from update_ok [OF assms(1) ok assms(6), of T seed]
  have "fst (update R T n seed w) = None" by auto
  moreover from ok have "sim_ok (model_items model) (engine (reseed R seed' w))"
    by (simp add: reseed_engine)
  from schedule_loop_ok [OF assms(1) this assms(7)]
  have "fst (schedule_update R schedule seed' w) = None" by (auto simp: schedule_update_def)
  ultimately show ?thesis by simp
qed

theorem negative_temperature_runs_witness:
  "fst (update counter_random (- 1) 2 (Some 3)
          (run_calls counter_random \<lparr>rng = 0, engine = field_engine 1\<rparr>
             [UpdateCall 0 1 None, UpdateCall 1 (- 1) None])) = None \<and>
   fst (schedule_update counter_random [(- 1, 1), (- 2, 2)] None
          (run_calls counter_random \<lparr>rng = 0, engine = field_engine 1\<rparr>
             [UpdateCall 0 1 None, UpdateCall 1 (- 1) None])) = None"
proof -
  have i: "simulation_init SpinSimulation field_model None 1 = Inr (field_engine 1)"
    using field_engine_init [of 1] by (simp add: SpinSimulation_init_def)
  have d: "distinct (map fst (model_items field_model))" by (simp add: field_model_def)
  have s: "\<forall>(T', n') \<in> set [(- 1 :: real, 1 :: int), (- 2, 2)]. 0 \<le> n'" by simp
  have t: "(- 1 :: real) < 0" and n: "(0 :: int) \<le> 2" by simp_all
  from negative_temperature_runs
    [where g = 0 and calls = "[UpdateCall 0 1 None, UpdateCall 1 (- 1) None]"
       and seed = "Some 3" and seed' = None,
     OF counter_random_ok i d refl t n s]
  show ?thesis by simp
qed

text \<open>
  The claim as stated fails: on the one-spin engine, \<^verbatim>\<open>update(-1)\<close> raises nothing
  and flips the spin.
\<close>

theorem negative_temperature_counterexample:
  "fst (update counter_random (- 1) 1 None \<lparr>rng = 0, engine = field_engine 0\<rparr>) = None \<and>
   fst (update counter_random (- 1) 1 None \<lparr>rng = 0, engine = field_engine 0\<rparr>)
     \<noteq> Some InvalidScheduleEntry \<and>
   state (engine \<lparr>rng = 0 :: nat, engine = field_engine 0\<rparr>) 0 = Some 1 \<and>
   state (engine (snd (update counter_random (- 1) 1 None \<lparr>rng = 0, engine = field_engine 0\<rparr>))) 0
     = Some (- 1)"
  by (simp add: engine_eval)

text \<open>
  Claim C6, as the code has it.  With \<open>sweeps < 0\<close> the call fails with
  \<open>InvalidUpdateCount\<close>, appends no snapshot and attempts no flip: the engine (state
  and history) is as before.  The seeding comes first, though: when a seed is given,
  the failing call leaves the random source re-initialised from it.
\<close>

theorem negative_count_fails_after_seeding:
  assumes "n < 0"
  shows "fst (update R T n seed w) = Some InvalidUpdateCount \<and>
         engine (snd (update R T n seed w)) = engine w \<and>
         rng (snd (update R T n seed w)) = (case seed of None \<Rightarrow> rng w | Some s \<Rightarrow> seed_rng R s)"
  using assms by (cases seed) (simp_all add: update_def reseed_def)

theorem negative_count_fails_after_seeding_witness:
  "fst (update counter_random 0 (- 1) (Some 5) \<lparr>rng = 0, engine = field_engine 2\<rparr>)
     = Some InvalidUpdateCount \<and>
   engine (snd (update counter_random 0 (- 1) (Some 5) \<lparr>rng = 0, engine = field_engine 2\<rparr>))
     = field_engine 2 \<and>
   rng (snd (update counter_random 0 (- 1) (Some 5) \<lparr>rng = 0, engine = field_engine 2\<rparr>))
     = 5"
  using negative_count_fails_after_seeding
    [of "- 1" counter_random 0 "Some 5" "\<lparr>rng = 0, engine = field_engine 2\<rparr>"]
  by (simp add: counter_random_def)

text \<open>
  The claim as stated fails: a failing call with a seed changes the generator (here
  from \<open>0\<close> to \<open>5\<close>).
\<close>

theorem negative_count_counterexample:
  "fst (update counter_random 0 (- 1) (Some 5) \<lparr>rng = 0, engine = field_engine 2\<rparr>)
     = Some InvalidUpdateCount \<and>
   rng \<lparr>rng = 0 :: nat, engine = field_engine 2\<rparr> = 0 \<and>
   rng (snd (update counter_random 0 (- 1) (Some 5) \<lparr>rng = 0, engine = field_engine 2\<rparr>)) = 5"
  by (simp add: update_def reseed_def counter_random_def)

text \<open>
  Claim C7.  Take an engine as the constructor built it for a model (a dictionary)
  whose terms have pairwise distinct labels, after any sequence of earlier calls, and a
  random source that draws from the population.  At temperature \<open>0\<close> a candidate \<open>i\<close>
  is flipped if and only if its computed \<open>dE\<close> is at most \<open>0\<close>, and either way the
  generator is left as it was (the world returned differs from the given one in the
  state only); and a run of \<open>n \<ge> 0\<close> sweeps raises nothing and ends in a state whose
  energy, as \<open>puso_value\<close> returns it, is at most the energy it started from.
\<close>

theorem zero_temperature_descent:
  assumes "random_ok R"
    and "simulation_init c model init mem = Inr s"
    and "distinct (map fst (model_items model))"
    and "\<forall>(k, c) \<in> set (model_items model). distinct k"
    and "w = run_calls R \<lparr>rng = g, engine = s\<rparr> calls"
    and "0 \<le> n"
  shows "(\<forall>i \<in> set (variables (engine w)). \<exists>x dE.
            state (engine w) i = Some x \<and> delta_E (engine w) i = Inr dE \<and>
            candidate R 0 w i =
              (None, if dE \<le> 0
                     then w\<lparr>engine := (engine w)\<lparr>state := (state (engine w))(i \<mapsto> x * (- 1))\<rparr>\<rparr>
                     else w)) \<and>
         (\<exists>w' before after.
            update R 0 n seed w = (None, w') \<and>
            puso_value (state (engine w)) (model_items model) = Inr before \<and>
            puso_value (state (engine w')) (model_items model) = Inr after \<and>
            after \<le> before)"
proof -
  let ?H = "model_items model"
  from reachable_sim_ok [OF assms(1,2,3)] assms(5) have ok: "sim_ok ?H (engine w)" by simp
  have "\<exists>x dE. state (engine w) i = Some x \<and> delta_E (engine w) i = Inr dE \<and>
          candidate R 0 w i =
            (None, if dE \<le> 0
                   then w\<lparr>engine := (engine w)\<lparr>state := (state (engine w))(i \<mapsto> x * (- 1))\<rparr>\<rparr>
                   else w)"
    if "i \<in> set (variables (engine w))" for i
    using candidate_zero [OF ok that assms(4), of R] delta_E_ok [OF ok that]
    by auto
  moreover from update_zero_ok [OF assms(1) ok assms(4,6), of seed] obtain w'
    where u: "update R 0 n seed w = (None, w')" and ok': "sim_ok ?H (engine w')"
      and le: "full_energy (state (engine w')) ?H \<le> full_energy (state (engine w)) ?H"
    by blast
  from u le energy_ok [OF ok] energy_ok [OF ok']
  have "\<exists>w' before after.
            update R 0 n seed w = (None, w') \<and>
            puso_value (state (engine w)) ?H = Inr before \<and>
            puso_value (state (engine w')) ?H = Inr after \<and>
            after \<le> before"
    by blast
  ultimately show ?thesis by blast
qed

lemma field_run_two:
  "update counter_random 0 2 None \<lparr>rng = 0, engine = field_engine 2\<rparr> =
     (None, \<lparr>rng = 2, engine = (field_engine 2)\<lparr>state := [0 \<mapsto> - 1],
        past_states := [[0 \<mapsto> 1], [0 \<mapsto> - 1]]\<rparr>\<rparr>)"
  by (simp add: engine_eval numeral_2_eq_2)

theorem zero_temperature_descent_witness:
  "update counter_random 0 2 None \<lparr>rng = 0, engine = field_engine 2\<rparr> =
     (None, \<lparr>rng = 2, engine = (field_engine 2)\<lparr>state := [0 \<mapsto> - 1],
        past_states := [[0 \<mapsto> 1], [0 \<mapsto> - 1]]\<rparr>\<rparr>) \<and>
   puso_value (state (field_engine 2)) (model_items field_model) = Inr 1 \<and>
   puso_value [(0 :: int) \<mapsto> - 1] (model_items field_model) = Inr (- 1) \<and>
   (\<exists>w' before after.
      update counter_random 0 2 None \<lparr>rng = 0, engine = field_engine 2\<rparr> = (None, w') \<and>
      puso_value (state (field_engine 2)) (model_items field_model) = Inr before \<and>
      puso_value (state (engine w')) (model_items field_model) = Inr after \<and>
      after \<le> before)"
proof -
  have i: "simulation_init SpinSimulation field_model None 2 = Inr (field_engine 2)"
    using field_engine_init [of 2] by (simp add: SpinSimulation_init_def)
  have d: "distinct (map fst (model_items field_model))" by (simp add: field_model_def)
  have l: "\<forall>(k, c) \<in> set (model_items field_model). distinct k" by (simp add: field_model_def)
  have w: "\<lparr>rng = 0 :: nat, engine = field_engine 2\<rparr> =
      run_calls counter_random \<lparr>rng = 0, engine = field_engine 2\<rparr> []"
    by (simp add: run_calls_def)
  have n: "(0 :: int) \<le> 2" by simp
  from zero_temperature_descent [where seed = None, OF counter_random_ok i d l w n]
  have "\<exists>w' before after.
      update counter_random 0 2 None \<lparr>rng = 0, engine = field_engine 2\<rparr> = (None, w') \<and>
      puso_value (state (field_engine 2)) (model_items field_model) = Inr before \<and>
      puso_value (state (engine w')) (model_items field_model) = Inr after \<and>
      after \<le> before"
    by simp
  moreover have "puso_value (state (field_engine 2)) (model_items field_model) = Inr 1"
    by (simp add: field_engine_def field_model_def)
  moreover have "puso_value [(0 :: int) \<mapsto> - 1] (model_items field_model) = Inr (- 1)"
    by (simp add: field_model_def)
  ultimately show ?thesis using field_run_two by (intro conjI)
qed

text \<open>
  Claim C8.  For every schedule whose sweep counts are numbers of calls (none is
  negative), every process and every optional seed, \<^verbatim>\<open>schedule_update\<close> returns the
  same outcome (exception or none) and leaves the same process (generator, state and
  history) as seeding once and then issuing, phase by phase, that many single-sweep
  \<^verbatim>\<open>update\<close> calls at the phase's temperature.
\<close>

theorem schedule_update_single_sweeps:
  assumes "\<forall>(T, n) \<in> set schedule. 0 \<le> n"
  shows "schedule_update R schedule seed w = schedule_by_single_sweeps R schedule seed w"
  unfolding schedule_update_def schedule_by_single_sweeps_def
  using assms by (rule schedule_loop_single_sweeps)

theorem schedule_update_single_sweeps_witness:
  "schedule_update counter_random [(0, 2), (1, 0)] (Some 3) \<lparr>rng = 0, engine = field_engine 2\<rparr> =
     schedule_by_single_sweeps counter_random [(0, 2), (1, 0)] (Some 3)
       \<lparr>rng = 0, engine = field_engine 2\<rparr> \<and>
   schedule_update counter_random [(0, 2), (1, 0)] (Some 3) \<lparr>rng = 0, engine = field_engine 2\<rparr> =
     (None, \<lparr>rng = 5, engine = (field_engine 2)\<lparr>state := [0 \<mapsto> - 1],
        past_states := [[0 \<mapsto> 1], [0 \<mapsto> - 1]]\<rparr>\<rparr>)"
proof -
  have s: "\<forall>(T, n) \<in> set [(0 :: real, 2 :: int), (1, 0)]. 0 \<le> n" by simp
  have "schedule_update counter_random [(0, 2), (1, 0)] (Some 3)
          \<lparr>rng = 0, engine = field_engine 2\<rparr> =
        (None, \<lparr>rng = 5, engine = (field_engine 2)\<lparr>state := [0 \<mapsto> - 1],
           past_states := [[0 \<mapsto> 1], [0 \<mapsto> - 1]]\<rparr>\<rparr>)"
    by (simp add: schedule_update_def engine_eval numeral_2_eq_2)
  with schedule_update_single_sweeps [OF s, of counter_random "Some 3"
      "\<lparr>rng = 0, engine = field_engine 2\<rparr>"]
  show ?thesis by simp
qed

text \<open>
  Claim C9.  For an engine of either class constructed with \<open>memory = 0\<close>, and after
  any sequence of \<^verbatim>\<open>update\<close> and \<^verbatim>\<open>schedule_update\<close> calls (with any arguments and
  any random source, failing or not), \<^verbatim>\<open>get_past_states()\<close> returns the one-element
  list holding the current state.
\<close>

theorem get_past_states_without_memory:
  assumes "simulation_init c model init 0 = Inr s"
  shows "get_past_states (engine (run_calls R \<lparr>rng = g, engine = s\<rparr> calls)) None =
           [state_view (engine (run_calls R \<lparr>rng = g, engine = s\<rparr> calls))]"
proof -
  from simulation_init_fields [OF assms] have "no_history \<lparr>rng = g, engine = s\<rparr>"
    by (simp add: no_history_def)
  then have "no_history (run_calls R \<lparr>rng = g, engine = s\<rparr> calls)"
    by (rule run_calls_no_history)
  then show ?thesis by (simp add: no_history_def get_past_states_def slice_from_def)
qed

theorem get_past_states_without_memory_witness:
  "simulation_init SpinSimulation field_model None 0 = Inr (field_engine 0) \<and>
   get_past_states
     (engine (run_calls counter_random \<lparr>rng = 0, engine = field_engine 0\<rparr>
        [UpdateCall 0 3 None, ScheduleCall [(0, 2)] (Some 1), UpdateCall 1 (- 1) None])) None =
   [state_view
     (engine (run_calls counter_random \<lparr>rng = 0, engine = field_engine 0\<rparr>
        [UpdateCall 0 3 None, ScheduleCall [(0, 2)] (Some 1), UpdateCall 1 (- 1) None]))] \<and>
   state_view
     (engine (run_calls counter_random \<lparr>rng = 0, engine = field_engine 0\<rparr>
        [UpdateCall 0 3 None, ScheduleCall [(0, 2)] (Some 1), UpdateCall 1 (- 1) None]))
   = [0 \<mapsto> - 1]"
proof -
  have i: "simulation_init SpinSimulation field_model None 0 = Inr (field_engine 0)"
    using field_engine_init [of 0] by (simp add: SpinSimulation_init_def)
  have "state_view
     (engine (run_calls counter_random \<lparr>rng = 0, engine = field_engine 0\<rparr>
        [UpdateCall 0 3 None, ScheduleCall [(0, 2)] (Some 1), UpdateCall 1 (- 1) None]))
   = [0 \<mapsto> - 1]"
    by (simp add: run_calls_def schedule_update_def engine_eval numeral_2_eq_2 numeral_3_eq_3)
  with get_past_states_without_memory [OF i, of counter_random 0] i show ?thesis by simp
qed

text \<open>
  Claim C1 at a failing input: an engine with \<open>memory = 2\<close> after two sweeps holds two
  snapshots, and \<^verbatim>\<open>get_past_states()\<close> returns the newer one only, followed by the
  current state: two elements, where the claim has three.
\<close>

theorem get_past_states_drops_oldest:
  "memory (engine (snd (update counter_random 0 2 None \<lparr>rng = 0, engine = field_engine 2\<rparr>))) = 2 \<and>
   past_states (engine (snd (update counter_random 0 2 None \<lparr>rng = 0, engine = field_engine 2\<rparr>)))
     = [[0 \<mapsto> 1], [0 \<mapsto> - 1]] \<and>
   state_view (engine (snd (update counter_random 0 2 None \<lparr>rng = 0, engine = field_engine 2\<rparr>)))
     = [0 \<mapsto> - 1] \<and>
   get_past_states
     (engine (snd (update counter_random 0 2 None \<lparr>rng = 0, engine = field_engine 2\<rparr>))) None
     = [[0 \<mapsto> - 1], [0 \<mapsto> - 1]]"
  unfolding field_run_two
  by (simp add: get_past_states_def slice_from_def state_view_def field_engine_def)

text \<open>
  Claim C5 at a failing input: \<^verbatim>\<open>set_state({0: 5})\<close> on the bipolar one-spin engine
  raises \<open>InvalidStateValue\<close> and leaves the engine holding the state \<^verbatim>\<open>{0: 5}\<close>.
\<close>

theorem set_state_assigns_before_raising:
  "set_state (field_engine 0) [0 \<mapsto> 5] =
     (Some InvalidStateValue, (field_engine 0)\<lparr>state := [0 \<mapsto> 5]\<rparr>) \<and>
   state (field_engine 0) 0 = Some 1 \<and>
   state (snd (set_state (field_engine 0) [0 \<mapsto> 5])) 0 = Some 5"
  by (auto simp add: set_state_def SpinSimulation_set_state_def over_variables_def
      restrict_map_def field_engine_def Let_def fun_eq_iff)

section \<open>Further properties of the accessors\<close>

text \<open>
  With an explicit \<open>n \<ge> 2\<close>, \<^verbatim>\<open>get_past_states(n)\<close> returns the most recent
  \<open>min (n - 1) available\<close> snapshots, oldest first, followed by the current state.
\<close>

lemma get_past_states_recent:
  assumes "2 \<le> n"
  shows "get_past_states s (Some n) =
           drop (length (past_states s) - min (nat (n - 1)) (length (past_states s)))
             (past_states s) @ [state_view s]"
proof -
  have "nat (int (length (past_states s)) + (- n + 1)) =
          length (past_states s) - min (nat (n - 1)) (length (past_states s))"
    using assms by (simp add: min_def nat_diff_distrib' nat_le_iff) linarith
  with assms show ?thesis by (simp add: get_past_states_def slice_from_def)
qed

lemma get_past_states_recent_length:
  assumes "2 \<le> n"
  shows "length (get_past_states s (Some n)) = min (nat (n - 1)) (length (past_states s)) + 1"
  by (simp add: get_past_states_recent [OF assms])

text \<open>
  \<^verbatim>\<open>BooleanSimulation.set_state\<close> validates before it assigns: when it raises, the
  engine is as it was.
\<close>

lemma BooleanSimulation_set_state_unchanged:
  "BooleanSimulation_set_state s st = (Some e, s') \<Longrightarrow> s' = s"
  by (auto simp: BooleanSimulation_set_state_def split: sum.splits if_splits)

text \<open>
  \<^verbatim>\<open>SpinSimulation.set_state\<close> assigns before it validates: when it raises
  \<open>InvalidStateValue\<close>, the engine holds the rejected assignment (restricted to the
  variables).
\<close>

lemma SpinSimulation_set_state_overwrites:
  "SpinSimulation_set_state s st = (Some InvalidStateValue, s') \<Longrightarrow>
   s' = s\<lparr>state := st |` set (variables s)\<rparr>"
  by (auto simp: SpinSimulation_set_state_def over_variables_def Let_def
      split: sum.splits if_splits)


text \<open>
  Without an argument and with \<open>memory \<ge> 2\<close>, the call is \<^verbatim>\<open>get_past_states(memory)\<close>:
  once the history holds \<open>memory\<close> snapshots it returns \<open>memory - 1\<close> of them and the
  current state.
\<close>

lemma get_past_states_default:
  assumes "2 \<le> memory s"
  shows "get_past_states s None = get_past_states s (Some (memory s))"
  using assms by (simp add: get_past_states_def)

lemma get_past_states_default_length:
  assumes "2 \<le> memory s" and "int (length (past_states s)) = memory s"
  shows "int (length (get_past_states s None)) = memory s"
proof -
  from assms have "min (nat (memory s - 1)) (length (past_states s)) = nat (memory s - 1)"
    by linarith
  with assms show ?thesis
    by (simp add: get_past_states_default get_past_states_recent_length)
qed

end
